theory Spec2Isabelle
  imports Main "HOL-Library.Word" "HOL-Library.Monad_Syntax" "HOL-Library.Product_Lexorder"
begin

section \<open>Data model of zskiplist.go\<close>

text \<open>
  The list lives in a store of nodes. A pointer \<^verbatim>\<open>*ZSkipListNode\<close> is the index of a node in
  the store, the nil pointer is \<open>None\<close>. Every operation returns an \<open>option\<close>: \<open>None\<close>
  stands for a run-time fault of the Go code (nil dereference, index out of range) or for a
  pointer-chasing loop that does not return.
\<close>

definition ZSKIPLIST_MAXLEVEL :: nat where
  "ZSKIPLIST_MAXLEVEL = 12"

text \<open>A value behind \<^verbatim>\<open>RankInterface\<close>: the list reads nothing but \<open>Uuid\<close>; \<open>payload\<close> stands
  for the rest of the caller's object.\<close>

datatype entity = Entity (Uuid: "64 word") (payload: nat)

record zskipListLevel =
  forward :: "nat option"
  span :: int

record ZSkipListNode =
  Obj :: "entity option"
  Score :: "32 word"
  backward :: "nat option"
  level :: "zskipListLevel list"

record ZSkipList =
  store :: "ZSkipListNode list"
  head :: nat
  tail :: "nat option"
  zlength :: int
  zlevel :: nat

definition newZSkipListNode :: "nat \<Rightarrow> 32 word \<Rightarrow> entity option \<Rightarrow> ZSkipListNode" where
  "newZSkipListNode lvl score obj =
     \<lparr>Obj = obj, Score = score, backward = None,
      level = replicate lvl \<lparr>forward = None, span = 0\<rparr>\<rparr>"

definition NewZSkipList :: ZSkipList where
  "NewZSkipList =
     \<lparr>store = [newZSkipListNode ZSKIPLIST_MAXLEVEL 0 None], head = 0, tail = None,
      zlength = 0, zlevel = 1\<rparr>"

text \<open>\<^verbatim>\<open>randLevel\<close>, with the random source made explicit: \<open>flips\<close> is the number of
  consecutive draws with \<^verbatim>\<open>float32(seed) < ZSKIPLIST_P*0xFFFF\<close> before the first draw that
  fails the test.\<close>

definition randLevel :: "nat \<Rightarrow> nat" where
  "randLevel flips =
     (let lvl = 1 + flips in if lvl < ZSKIPLIST_MAXLEVEL then lvl else ZSKIPLIST_MAXLEVEL)"

subsection \<open>Checked access to slices, arrays and nodes\<close>

definition arr_get :: "'a list \<Rightarrow> nat \<Rightarrow> 'a option" where
  "arr_get xs i = (if i < length xs then Some (xs ! i) else None)"

definition arr_set :: "'a list \<Rightarrow> nat \<Rightarrow> 'a \<Rightarrow> 'a list option" where
  "arr_set xs i v = (if i < length xs then Some (xs[i := v]) else None)"

text \<open>\<open>ptr_at update i\<close> is \<^verbatim>\<open>update[i]\<close> about to be dereferenced.\<close>

definition ptr_at :: "nat option list \<Rightarrow> nat \<Rightarrow> nat option" where
  "ptr_at update i = do { p \<leftarrow> arr_get update i; p }"

definition slot_at :: "ZSkipListNode list \<Rightarrow> nat \<Rightarrow> nat \<Rightarrow> zskipListLevel option" where
  "slot_at h p i = do { n \<leftarrow> arr_get h p; arr_get (level n) i }"

definition set_slot :: "ZSkipListNode list \<Rightarrow> nat \<Rightarrow> nat \<Rightarrow> zskipListLevel \<Rightarrow> ZSkipListNode list option" where
  "set_slot h p i l = do {
     n \<leftarrow> arr_get h p;
     ls \<leftarrow> arr_set (level n) i l;
     arr_set h p (n\<lparr>level := ls\<rparr>) }"

definition set_forward :: "ZSkipListNode list \<Rightarrow> nat \<Rightarrow> nat \<Rightarrow> nat option \<Rightarrow> ZSkipListNode list option" where
  "set_forward h p i f = do { l \<leftarrow> slot_at h p i; set_slot h p i (l\<lparr>forward := f\<rparr>) }"

definition set_span :: "ZSkipListNode list \<Rightarrow> nat \<Rightarrow> nat \<Rightarrow> int \<Rightarrow> ZSkipListNode list option" where
  "set_span h p i v = do { l \<leftarrow> slot_at h p i; set_slot h p i (l\<lparr>span := v\<rparr>) }"

definition set_backward :: "ZSkipListNode list \<Rightarrow> nat \<Rightarrow> nat option \<Rightarrow> ZSkipListNode list option" where
  "set_backward h p b = do { n \<leftarrow> arr_get h p; arr_set h p (n\<lparr>backward := b\<rparr>) }"

subsection \<open>Counting loops\<close>

text \<open>\<^verbatim>\<open>for i := lo; i < lo+n; i++ { body }\<close>: the first \<open>n\<close> rounds, then round \<open>lo+n\<close>.\<close>

primrec for_up :: "nat \<Rightarrow> nat \<Rightarrow> (nat \<Rightarrow> 's \<Rightarrow> 's option) \<Rightarrow> 's \<Rightarrow> 's option" where
  "for_up lo 0 body s = Some s"
| "for_up lo (Suc n) body s = do { s' \<leftarrow> for_up lo n body s; body (lo + n) s' }"

subsection \<open>The comparisons of the three searches\<close>

text \<open>\<^verbatim>\<open>n.Score < score || (n.Score == score && n.Obj.Uuid() < obj.Uuid())\<close>; the call of
  \<^verbatim>\<open>Uuid\<close> on a nil \<^verbatim>\<open>Obj\<close> faults, and happens only at equal scores.\<close>

definition key_lt :: "ZSkipListNode \<Rightarrow> 32 word \<Rightarrow> 64 word \<Rightarrow> bool option" where
  "key_lt n score uid =
     (if Score n < score then Some True
      else if Score n = score then do { e \<leftarrow> Obj n; Some (Uuid e < uid) }
      else Some False)"

text \<open>The same with \<^verbatim>\<open><=\<close> on the identities, as \<^verbatim>\<open>GetRank\<close> has it.\<close>

definition key_le :: "ZSkipListNode \<Rightarrow> 32 word \<Rightarrow> 64 word \<Rightarrow> bool option" where
  "key_le n score uid =
     (if Score n < score then Some True
      else if Score n = score then do { e \<leftarrow> Obj n; Some (Uuid e \<le> uid) }
      else Some False)"

section \<open>Insert\<close>

text \<open>The inner loop of the search at level \<open>i\<close>: returns the node reached and the rank.\<close>

partial_function (option) insert_walk ::
  "ZSkipListNode list \<Rightarrow> 32 word \<Rightarrow> 64 word \<Rightarrow> nat \<Rightarrow> nat \<Rightarrow> int \<Rightarrow> (nat \<times> int) option" where
  "insert_walk h score uid i x rank = do {
     l \<leftarrow> slot_at h x i;
     case forward l of
       None \<Rightarrow> Some (x, rank)
     | Some f \<Rightarrow> do {
         n \<leftarrow> arr_get h f;
         lt \<leftarrow> key_lt n score uid;
         if lt then insert_walk h score uid i f (rank + span l) else Some (x, rank) } }"

declare insert_walk.simps [code]

text \<open>The outer loop, \<^verbatim>\<open>for i := zsl.level - 1; i >= 0; i--\<close>; the first argument is
  \<^verbatim>\<open>zsl.level\<close>, the second \<open>i + 1\<close>.\<close>

primrec insert_search ::
  "ZSkipListNode list \<Rightarrow> 32 word \<Rightarrow> 64 word \<Rightarrow> nat \<Rightarrow> nat \<Rightarrow> nat \<Rightarrow> nat option list \<Rightarrow> int list
     \<Rightarrow> (nat option list \<times> int list) option" where
  "insert_search h score uid lv 0 x update rank = Some (update, rank)"
| "insert_search h score uid lv (Suc i) x update rank = do {
     rank1 \<leftarrow> (if i \<noteq> lv - 1 then do { r \<leftarrow> arr_get rank (i + 1); arr_set rank i r }
               else Some rank);
     r0 \<leftarrow> arr_get rank1 i;
     (x', r) \<leftarrow> insert_walk h score uid i x r0;
     rank2 \<leftarrow> arr_set rank1 i r;
     update' \<leftarrow> arr_set update i (Some x');
     insert_search h score uid lv i x' update' rank2 }"

text \<open>One round of \<^verbatim>\<open>for i := zsl.level; i < level; i++\<close>.\<close>

definition insert_raise ::
  "nat \<Rightarrow> int \<Rightarrow> nat \<Rightarrow> ZSkipListNode list \<times> nat option list \<times> int list
     \<Rightarrow> (ZSkipListNode list \<times> nat option list \<times> int list) option" where
  "insert_raise hp len i s = (case s of (h, update, rank) \<Rightarrow> do {
     rank' \<leftarrow> arr_set rank i 0;
     update' \<leftarrow> arr_set update i (Some hp);
     u \<leftarrow> ptr_at update' i;
     h' \<leftarrow> set_span h u i len;
     Some (h', update', rank') })"

text \<open>One round of \<^verbatim>\<open>for i := 0; i < level; i++\<close>, which links the new node \<open>x\<close> in.\<close>

definition insert_link ::
  "nat \<Rightarrow> nat option list \<Rightarrow> int list \<Rightarrow> nat \<Rightarrow> ZSkipListNode list \<Rightarrow> ZSkipListNode list option" where
  "insert_link x update rank i h = do {
     u \<leftarrow> ptr_at update i;
     lu \<leftarrow> slot_at h u i;
     h1 \<leftarrow> set_forward h x i (forward lu);
     h2 \<leftarrow> set_forward h1 u i (Some x);
     lu2 \<leftarrow> slot_at h2 u i;
     r0 \<leftarrow> arr_get rank 0;
     ri \<leftarrow> arr_get rank i;
     h3 \<leftarrow> set_span h2 x i (span lu2 - (r0 - ri));
     set_span h3 u i ((r0 - ri) + 1) }"

text \<open>One round of \<^verbatim>\<open>for i := level; i < zsl.level; i++\<close>.\<close>

definition insert_bump :: "nat option list \<Rightarrow> nat \<Rightarrow> ZSkipListNode list \<Rightarrow> ZSkipListNode list option" where
  "insert_bump update i h = do {
     u \<leftarrow> ptr_at update i;
     lu \<leftarrow> slot_at h u i;
     set_span h u i (span lu + 1) }"

definition Insert :: "nat \<Rightarrow> 32 word \<Rightarrow> entity \<Rightarrow> ZSkipList \<Rightarrow> (nat \<times> ZSkipList) option" where
  "Insert flips score obj zsl = do {
     (update, rank) \<leftarrow> insert_search (store zsl) score (Uuid obj) (zlevel zsl) (zlevel zsl) (head zsl)
        (replicate ZSKIPLIST_MAXLEVEL None) (replicate ZSKIPLIST_MAXLEVEL 0);
     let lvl = randLevel flips;
     (h1, update, rank) \<leftarrow>
        (if lvl > zlevel zsl
         then for_up (zlevel zsl) (lvl - zlevel zsl) (insert_raise (head zsl) (zlength zsl))
                (store zsl, update, rank)
         else Some (store zsl, update, rank));
     let zsl = (if lvl > zlevel zsl then zsl\<lparr>zlevel := lvl\<rparr> else zsl);
     let x = length h1;
     let h2 = h1 @ [newZSkipListNode lvl score (Some obj)];
     h3 \<leftarrow> for_up 0 lvl (insert_link x update rank) h2;
     h4 \<leftarrow> for_up lvl (zlevel zsl - lvl) (insert_bump update) h3;
     u0 \<leftarrow> arr_get update 0;
     h5 \<leftarrow> (if u0 \<noteq> Some (head zsl) then set_backward h4 x u0 else Some h4);
     lx \<leftarrow> slot_at h5 x 0;
     (h6, tl) \<leftarrow> (case forward lx of
                    Some f \<Rightarrow> do { h' \<leftarrow> set_backward h5 f (Some x); Some (h', tail zsl) }
                  | None \<Rightarrow> Some (h5, Some x));
     Some (x, zsl\<lparr>store := h6, tail := tl, zlength := zlength zsl + 1\<rparr>) }"

section \<open>Delete\<close>

partial_function (option) delete_walk ::
  "ZSkipListNode list \<Rightarrow> 32 word \<Rightarrow> 64 word \<Rightarrow> nat \<Rightarrow> nat \<Rightarrow> nat option" where
  "delete_walk h score uid i x = do {
     l \<leftarrow> slot_at h x i;
     case forward l of
       None \<Rightarrow> Some x
     | Some f \<Rightarrow> do {
         n \<leftarrow> arr_get h f;
         lt \<leftarrow> key_lt n score uid;
         if lt then delete_walk h score uid i f else Some x } }"

declare delete_walk.simps [code]

primrec delete_search ::
  "ZSkipListNode list \<Rightarrow> 32 word \<Rightarrow> 64 word \<Rightarrow> nat \<Rightarrow> nat \<Rightarrow> nat option list
     \<Rightarrow> (nat \<times> nat option list) option" where
  "delete_search h score uid 0 x update = Some (x, update)"
| "delete_search h score uid (Suc i) x update = do {
     x' \<leftarrow> delete_walk h score uid i x;
     update' \<leftarrow> arr_set update i (Some x');
     delete_search h score uid i x' update' }"

text \<open>One round of \<^verbatim>\<open>for i := 0; i < zsl.level; i++\<close> in \<^verbatim>\<open>deleteNode\<close>.\<close>

definition delete_unlink :: "nat \<Rightarrow> nat option list \<Rightarrow> nat \<Rightarrow> ZSkipListNode list \<Rightarrow> ZSkipListNode list option" where
  "delete_unlink x update i h = do {
     u \<leftarrow> ptr_at update i;
     lu \<leftarrow> slot_at h u i;
     if forward lu = Some x then do {
       lx \<leftarrow> slot_at h x i;
       h1 \<leftarrow> set_span h u i (span lu + (span lx - 1));
       lx1 \<leftarrow> slot_at h1 x i;
       set_forward h1 u i (forward lx1) }
     else set_span h u i (span lu - 1) }"

text \<open>\<^verbatim>\<open>for zsl.level > 1 && zsl.head.level[zsl.level-1].forward == nil { zsl.level-- }\<close>\<close>

fun delete_shrink :: "ZSkipListNode list \<Rightarrow> nat \<Rightarrow> nat \<Rightarrow> nat option" where
  "delete_shrink h hp (Suc (Suc n)) = do {
     l \<leftarrow> slot_at h hp (Suc n);
     if forward l = None then delete_shrink h hp (Suc n) else Some (Suc (Suc n)) }"
| "delete_shrink h hp lv = Some lv"

definition deleteNode :: "nat \<Rightarrow> nat option list \<Rightarrow> ZSkipList \<Rightarrow> ZSkipList option" where
  "deleteNode x update zsl = do {
     h1 \<leftarrow> for_up 0 (zlevel zsl) (delete_unlink x update) (store zsl);
     lx \<leftarrow> slot_at h1 x 0;
     nx \<leftarrow> arr_get h1 x;
     (h2, tl) \<leftarrow> (case forward lx of
                    Some f \<Rightarrow> do { h' \<leftarrow> set_backward h1 f (backward nx); Some (h', tail zsl) }
                  | None \<Rightarrow> Some (h1, backward nx));
     lv \<leftarrow> delete_shrink h2 (head zsl) (zlevel zsl);
     Some (zsl\<lparr>store := h2, tail := tl, zlevel := lv, zlength := zlength zsl - 1\<rparr>) }"

text \<open>\<^verbatim>\<open>Delete\<close> returns the node unlinked, or nil; the \<^verbatim>\<open>log.Printf\<close> of the mismatch
  branch writes to the log only and is left out.\<close>

definition Delete :: "32 word \<Rightarrow> entity \<Rightarrow> ZSkipList \<Rightarrow> (nat option \<times> ZSkipList) option" where
  "Delete score obj zsl = do {
     (x, update) \<leftarrow> delete_search (store zsl) score (Uuid obj) (zlevel zsl) (head zsl)
        (replicate ZSKIPLIST_MAXLEVEL None);
     l \<leftarrow> slot_at (store zsl) x 0;
     case forward l of
       None \<Rightarrow> Some (None, zsl)
     | Some y \<Rightarrow> do {
         n \<leftarrow> arr_get (store zsl) y;
         if score = Score n
         then do {
           e \<leftarrow> Obj n;
           if Uuid e = Uuid obj
           then do { zsl' \<leftarrow> deleteNode y update zsl; Some (Some y, zsl') }
           else Some (None, zsl) }
         else Some (None, zsl) } }"

section \<open>Queries\<close>

partial_function (option) rank_walk ::
  "ZSkipListNode list \<Rightarrow> 32 word \<Rightarrow> 64 word \<Rightarrow> nat \<Rightarrow> nat \<Rightarrow> int \<Rightarrow> (nat \<times> int) option" where
  "rank_walk h score uid i x rank = do {
     l \<leftarrow> slot_at h x i;
     case forward l of
       None \<Rightarrow> Some (x, rank)
     | Some f \<Rightarrow> do {
         n \<leftarrow> arr_get h f;
         le \<leftarrow> key_le n score uid;
         if le then rank_walk h score uid i f (rank + span l) else Some (x, rank) } }"

declare rank_walk.simps [code]

primrec rank_search ::
  "ZSkipListNode list \<Rightarrow> 32 word \<Rightarrow> 64 word \<Rightarrow> nat \<Rightarrow> nat \<Rightarrow> int \<Rightarrow> int option" where
  "rank_search h score uid 0 x rank = Some 0"
| "rank_search h score uid (Suc i) x rank = do {
     (x', rank') \<leftarrow> rank_walk h score uid i x rank;
     n \<leftarrow> arr_get h x';
     if Obj n \<noteq> None \<and> map_option Uuid (Obj n) = Some uid then Some rank'
     else rank_search h score uid i x' rank' }"

definition GetRank :: "32 word \<Rightarrow> entity \<Rightarrow> ZSkipList \<Rightarrow> int option" where
  "GetRank score obj zsl = rank_search (store zsl) score (Uuid obj) (zlevel zsl) (head zsl) 0"

partial_function (option) element_walk ::
  "ZSkipListNode list \<Rightarrow> int \<Rightarrow> nat \<Rightarrow> nat \<Rightarrow> int \<Rightarrow> (nat \<times> int) option" where
  "element_walk h rank i x tranversed = do {
     l \<leftarrow> slot_at h x i;
     case forward l of
       None \<Rightarrow> Some (x, tranversed)
     | Some f \<Rightarrow>
         if tranversed + span l \<le> rank then element_walk h rank i f (tranversed + span l)
         else Some (x, tranversed) }"

declare element_walk.simps [code]

primrec element_search :: "ZSkipListNode list \<Rightarrow> int \<Rightarrow> nat \<Rightarrow> nat \<Rightarrow> int \<Rightarrow> nat option option" where
  "element_search h rank 0 x tranversed = Some None"
| "element_search h rank (Suc i) x tranversed = do {
     (x', t') \<leftarrow> element_walk h rank i x tranversed;
     if t' = rank then Some (Some x') else element_search h rank i x' t' }"

definition GetElementByRank :: "int \<Rightarrow> ZSkipList \<Rightarrow> nat option option" where
  "GetElementByRank rank zsl = element_search (store zsl) rank (zlevel zsl) (head zsl) 0"

text \<open>The two collecting loops of the range queries; \<open>ranks\<close> is the slice appended to.\<close>

partial_function (option) collect_backward ::
  "ZSkipListNode list \<Rightarrow> nat option \<Rightarrow> int \<Rightarrow> entity option list \<Rightarrow> entity option list option" where
  "collect_backward h x n ranks =
     (case x of
        None \<Rightarrow> Some ranks
      | Some p \<Rightarrow>
          if n > 0 then do {
            nd \<leftarrow> arr_get h p;
            collect_backward h (backward nd) (n - 1) (ranks @ [Obj nd]) }
          else Some ranks)"

declare collect_backward.simps [code]

partial_function (option) collect_forward ::
  "ZSkipListNode list \<Rightarrow> nat option \<Rightarrow> int \<Rightarrow> entity option list \<Rightarrow> entity option list option" where
  "collect_forward h x n ranks =
     (case x of
        None \<Rightarrow> Some ranks
      | Some p \<Rightarrow>
          if n > 0 then do {
            nd \<leftarrow> arr_get h p;
            l \<leftarrow> arr_get (level nd) 0;
            collect_forward h (forward l) (n - 1) (ranks @ [Obj nd]) }
          else Some ranks)"

declare collect_forward.simps [code]

text \<open>\<^verbatim>\<open>make([]RankInterface, 0, n)\<close>: \<^verbatim>\<open>int\<close> is 64 bits wide, so a capacity computed by the
  caller wraps (\<open>int64\<close>). The runtime panics when the capacity is negative or when its size in
  bytes, 16 for each interface value, exceeds the \<open>2 ^ 48\<close> bytes a 64-bit heap can address.\<close>

definition int64 :: "int \<Rightarrow> int" where
  "int64 v = sint (word_of_int v :: 64 word)"

definition MAXCAP :: int where
  "MAXCAP = 2 ^ 48 div 16"

definition make_slice :: "int \<Rightarrow> entity option list option" where
  "make_slice c = (if 0 \<le> c \<and> c \<le> MAXCAP then Some [] else None)"

definition GetTopRankValueRange :: "int \<Rightarrow> ZSkipList \<Rightarrow> entity option list option" where
  "GetTopRankValueRange n zsl = do {
     ranks \<leftarrow> make_slice n;
     collect_backward (store zsl) (tail zsl) n ranks }"

text \<open>The nil slice returned for a missing target is the empty list; any other result holds
  the target at least.\<close>

definition GetNearByRankRange :: "int \<Rightarrow> int \<Rightarrow> int \<Rightarrow> ZSkipList \<Rightarrow> entity option list option" where
  "GetNearByRankRange rank up down zsl = do {
     target \<leftarrow> GetElementByRank rank zsl;
     case target of
       None \<Rightarrow> Some []
     | Some t \<Rightarrow> do {
         ranks \<leftarrow> make_slice (int64 (up + down + 1));
         nt \<leftarrow> arr_get (store zsl) t;
         ranks \<leftarrow> collect_backward (store zsl) (backward nt) up ranks;
         let ranks = ranks @ [Obj nt];
         lt \<leftarrow> arr_get (level nt) 0;
         collect_forward (store zsl) (forward lt) down ranks } }"

text \<open>\<^verbatim>\<open>Walk\<close>: the inspector \<open>fn\<close> may be a closure, so it threads a state \<open>'s\<close> of its own
  and \<^verbatim>\<open>Walk\<close> returns the inspector's last state.\<close>

partial_function (option) walk_backward ::
  "ZSkipListNode list \<Rightarrow> (int \<Rightarrow> entity option \<Rightarrow> 's \<Rightarrow> bool \<times> 's) \<Rightarrow> nat option \<Rightarrow> int \<Rightarrow> 's \<Rightarrow> 's option" where
  "walk_backward h fn node rank st =
     (case node of
        None \<Rightarrow> Some st
      | Some p \<Rightarrow> do {
          nd \<leftarrow> arr_get h p;
          case fn rank (Obj nd) st of
            (go, st') \<Rightarrow> if \<not> go then Some st' else walk_backward h fn (backward nd) (rank + 1) st' })"

declare walk_backward.simps [code]

partial_function (option) walk_forward ::
  "ZSkipListNode list \<Rightarrow> (int \<Rightarrow> entity option \<Rightarrow> 's \<Rightarrow> bool \<times> 's) \<Rightarrow> nat option \<Rightarrow> int \<Rightarrow> 's \<Rightarrow> 's option" where
  "walk_forward h fn node rank st =
     (case node of
        None \<Rightarrow> Some st
      | Some p \<Rightarrow> do {
          nd \<leftarrow> arr_get h p;
          case fn rank (Obj nd) st of
            (go, st') \<Rightarrow>
              if \<not> go then Some st'
              else do { l \<leftarrow> arr_get (level nd) 0; walk_forward h fn (forward l) (rank - 1) st' } })"

declare walk_forward.simps [code]

definition Walk :: "bool \<Rightarrow> (int \<Rightarrow> entity option \<Rightarrow> 's \<Rightarrow> bool \<times> 's) \<Rightarrow> 's \<Rightarrow> ZSkipList \<Rightarrow> 's option" where
  "Walk startTail fn st zsl =
     (if startTail then walk_backward (store zsl) fn (tail zsl) 1 st
      else do {
        l \<leftarrow> slot_at (store zsl) (head zsl) 0;
        walk_forward (store zsl) fn (forward l) (zlength zsl) st })"

section \<open>Histories of operations\<close>

datatype op = OpInsert nat "32 word" entity | OpDelete "32 word" entity

fun exec :: "op \<Rightarrow> ZSkipList \<Rightarrow> ZSkipList option" where
  "exec (OpInsert flips score obj) zsl = map_option snd (Insert flips score obj zsl)"
| "exec (OpDelete score obj) zsl = map_option snd (Delete score obj zsl)"

primrec run_from :: "ZSkipList \<Rightarrow> op list \<Rightarrow> ZSkipList option" where
  "run_from zsl [] = Some zsl"
| "run_from zsl (a # as) = do { zsl' \<leftarrow> exec a zsl; run_from zsl' as }"

definition run :: "op list \<Rightarrow> ZSkipList option" where
  "run ops = run_from NewZSkipList ops"

section \<open>What a history leaves in the list\<close>

text \<open>The sort key of an entry: score first, identity as tie-break (the lexicographic order
  on pairs).\<close>

definition ekey :: "32 word \<times> entity \<Rightarrow> 32 word \<times> 64 word" where
  "ekey se = (fst se, Uuid (snd se))"

text \<open>The entries present after a history, latest insertion first.\<close>

primrec apply_op :: "op \<Rightarrow> (32 word \<times> entity) list \<Rightarrow> (32 word \<times> entity) list" where
  "apply_op (OpInsert flips score obj) es = (score, obj) # es"
| "apply_op (OpDelete score obj) es = filter (\<lambda>se. ekey se \<noteq> (score, Uuid obj)) es"

definition present :: "op list \<Rightarrow> (32 word \<times> entity) list" where
  "present ops = foldl (\<lambda>es a. apply_op a es) [] ops"

text \<open>The precondition of \<^verbatim>\<open>Insert\<close>: no entry with the same score and identity is in the
  list.\<close>

primrec op_ok :: "op \<Rightarrow> (32 word \<times> entity) list \<Rightarrow> bool" where
  "op_ok (OpInsert flips score obj) es = ((score, Uuid obj) \<notin> set (map ekey es))"
| "op_ok (OpDelete score obj) es = True"

primrec valid_from :: "(32 word \<times> entity) list \<Rightarrow> op list \<Rightarrow> bool" where
  "valid_from es [] = True"
| "valid_from es (a # as) = (op_ok a es \<and> valid_from (apply_op a es) as)"

definition valid_ops :: "op list \<Rightarrow> bool" where
  "valid_ops ops = valid_from [] ops"

text \<open>The contract of \<^verbatim>\<open>RankInterface\<close> (\<^verbatim>\<open>Uuid\<close> is the unique id of the object): no two
  entries of the list carry the same identity.\<close>

primrec op_unique :: "op \<Rightarrow> (32 word \<times> entity) list \<Rightarrow> bool" where
  "op_unique (OpInsert flips score obj) es = (Uuid obj \<notin> set (map (Uuid \<circ> snd) es))"
| "op_unique (OpDelete score obj) es = True"

primrec unique_from :: "(32 word \<times> entity) list \<Rightarrow> op list \<Rightarrow> bool" where
  "unique_from es [] = True"
| "unique_from es (a # as) = (op_unique a es \<and> unique_from (apply_op a es) as)"

definition unique_ids :: "op list \<Rightarrow> bool" where
  "unique_ids ops = unique_from [] ops"

section \<open>The representation invariant\<close>

definition ht :: "ZSkipListNode list \<Rightarrow> nat \<Rightarrow> nat" where
  "ht h p = length (level (h ! p))"

definition fwd :: "ZSkipListNode list \<Rightarrow> nat \<Rightarrow> nat \<Rightarrow> nat option" where
  "fwd h p i = forward (level (h ! p) ! i)"

definition spn :: "ZSkipListNode list \<Rightarrow> nat \<Rightarrow> nat \<Rightarrow> int" where
  "spn h p i = span (level (h ! p) ! i)"

definition bwd :: "ZSkipListNode list \<Rightarrow> nat \<Rightarrow> nat option" where
  "bwd h p = backward (h ! p)"

definition entry :: "ZSkipListNode list \<Rightarrow> nat \<Rightarrow> 32 word \<times> entity" where
  "entry h p = (Score (h ! p), the (Obj (h ! p)))"

definition key_of :: "ZSkipListNode list \<Rightarrow> nat \<Rightarrow> 32 word \<times> 64 word" where
  "key_of h p = ekey (entry h p)"

text \<open>Among the nodes \<open>B\<close> that follow a node: the first one of height above \<open>i\<close>, and the
  number of steps to it (to the end of the list when there is none).\<close>

definition nxt :: "(nat \<Rightarrow> nat) \<Rightarrow> nat \<Rightarrow> nat list \<Rightarrow> nat option" where
  "nxt hs i B = find (\<lambda>b. i < hs b) B"

definition dst :: "(nat \<Rightarrow> nat) \<Rightarrow> nat \<Rightarrow> nat list \<Rightarrow> nat" where
  "dst hs i B = length (takeWhile (\<lambda>b. hs b \<le> i) B) + (if list_ex (\<lambda>b. i < hs b) B then 1 else 0)"

definition node_ok :: "ZSkipListNode list \<Rightarrow> nat \<Rightarrow> nat \<Rightarrow> nat list \<Rightarrow> bool" where
  "node_ok h lv a B \<longleftrightarrow>
     (\<forall>i<ht h a. fwd h a i = nxt (ht h) i B \<and> (i < lv \<longrightarrow> spn h a i = int (dst (ht h) i B)))"

primrec slots_ok :: "ZSkipListNode list \<Rightarrow> nat \<Rightarrow> nat list \<Rightarrow> bool" where
  "slots_ok h lv [] = True"
| "slots_ok h lv (a # B) = (node_ok h lv a B \<and> slots_ok h lv B)"

primrec backs_ok :: "ZSkipListNode list \<Rightarrow> nat option \<Rightarrow> nat list \<Rightarrow> bool" where
  "backs_ok h prev [] = True"
| "backs_ok h prev (a # B) = (bwd h a = prev \<and> backs_ok h (Some a) B)"

text \<open>\<open>shape h hp lv ns\<close>: in the store \<open>h\<close> the nodes \<open>ns\<close>, in this order, are threaded
  behind the head \<open>hp\<close> on \<open>lv\<close> levels.\<close>

definition shape :: "ZSkipListNode list \<Rightarrow> nat \<Rightarrow> nat \<Rightarrow> nat list \<Rightarrow> bool" where
  "shape h hp lv ns \<longleftrightarrow>
     hp < length h \<and> Obj (h ! hp) = None \<and> ht h hp = ZSKIPLIST_MAXLEVEL \<and>
     1 \<le> lv \<and> lv \<le> ZSKIPLIST_MAXLEVEL \<and>
     distinct (hp # ns) \<and>
     (\<forall>a\<in>set ns. a < length h \<and> Obj (h ! a) \<noteq> None \<and> 1 \<le> ht h a \<and> ht h a \<le> lv) \<and>
     sorted_wrt (<) (map (key_of h) ns) \<and>
     slots_ok h lv (hp # ns) \<and>
     backs_ok h None ns"

text \<open>\<open>rep zsl ns\<close>: the nodes \<open>ns\<close>, in this order, are the list \<open>zsl\<close>.\<close>

definition rep :: "ZSkipList \<Rightarrow> nat list \<Rightarrow> bool" where
  "rep zsl ns \<longleftrightarrow>
     shape (store zsl) (head zsl) (zlevel zsl) ns \<and>
     zlength zsl = int (length ns) \<and>
     tail zsl = (if ns = [] then None else Some (last ns)) \<and>
     (1 < zlevel zsl \<longrightarrow> (\<exists>a\<in>set ns. ht (store zsl) a = zlevel zsl))"

text \<open>The store after one field of one node is written.\<close>

definition put_fwd :: "ZSkipListNode list \<Rightarrow> nat \<Rightarrow> nat \<Rightarrow> nat option \<Rightarrow> ZSkipListNode list" where
  "put_fwd h p i v = h[p := (h ! p)\<lparr>level := (level (h ! p))[i := (level (h ! p) ! i)\<lparr>forward := v\<rparr>]\<rparr>]"

definition put_spn :: "ZSkipListNode list \<Rightarrow> nat \<Rightarrow> nat \<Rightarrow> int \<Rightarrow> ZSkipListNode list" where
  "put_spn h p i v = h[p := (h ! p)\<lparr>level := (level (h ! p))[i := (level (h ! p) ! i)\<lparr>span := v\<rparr>]\<rparr>]"

definition put_bwd :: "ZSkipListNode list \<Rightarrow> nat \<Rightarrow> nat option \<Rightarrow> ZSkipListNode list" where
  "put_bwd h p b = h[p := (h ! p)\<lparr>backward := b\<rparr>]"

text \<open>\<open>frame h h'\<close>: the store \<open>h'\<close> has the nodes of \<open>h\<close>, with the same heights, scores
  and objects; links and spans may differ.\<close>

definition frame :: "ZSkipListNode list \<Rightarrow> ZSkipListNode list \<Rightarrow> bool" where
  "frame h h' \<longleftrightarrow>
     length h' = length h \<and> ht h' = ht h \<and> entry h' = entry h \<and> (\<forall>q. Obj (h' ! q) = Obj (h ! q))"

text \<open>\<open>pred_at h P j u r\<close>: in the list \<open>P\<close>, \<open>u\<close> is the last node of height above \<open>j\<close> and
  \<open>r\<close> nodes come before it.\<close>

definition pred_at :: "ZSkipListNode list \<Rightarrow> nat list \<Rightarrow> nat \<Rightarrow> nat \<Rightarrow> int \<Rightarrow> bool" where
  "pred_at h P j u r \<longleftrightarrow>
     (\<exists>A B. P = A @ u # B \<and> j < ht h u \<and> (\<forall>b\<in>set B. ht h b \<le> j) \<and> r = int (length A))"

text \<open>\<open>ins_rel h h' hp lv x lvl u r\<close>: the store \<open>h'\<close> is \<open>h\<close> with the new node \<open>x\<close> of height
  \<open>lvl\<close> linked in behind the nodes \<open>u j\<close>, which lie at the positions \<open>r j\<close>.\<close>

definition ins_rel ::
  "ZSkipListNode list \<Rightarrow> ZSkipListNode list \<Rightarrow> nat \<Rightarrow> nat \<Rightarrow> nat \<Rightarrow> nat \<Rightarrow> (nat \<Rightarrow> nat) \<Rightarrow> (nat \<Rightarrow> int) \<Rightarrow> bool" where
  "ins_rel h h' hp lv x lvl u r \<longleftrightarrow>
     x = length h \<and> length h' = Suc (length h) \<and> 1 \<le> lvl \<and> lvl \<le> lv \<and>
     (\<forall>q<length h. ht h' q = ht h q \<and> Obj (h' ! q) = Obj (h ! q) \<and> key_of h' q = key_of h q) \<and>
     ht h' x = lvl \<and> Obj (h' ! x) \<noteq> None \<and>
     (\<forall>q j. q < length h \<longrightarrow> fwd h' q j = (if j < lvl \<and> q = u j then Some x else fwd h q j)) \<and>
     (\<forall>j<lvl. fwd h' x j = fwd h (u j) j) \<and>
     (\<forall>q j. q < length h \<longrightarrow>
        spn h' q j = (if j < lv \<and> q = u j then (if j < lvl then r 0 - r j + 1 else spn h q j + 1)
                      else spn h q j)) \<and>
     (\<forall>j<lvl. spn h' x j = spn h (u j) j - (r 0 - r j)) \<and>
     (\<forall>q<length h. bwd h' q = (if fwd h (u 0) 0 = Some q then Some x else bwd h q)) \<and>
     bwd h' x = (if u 0 \<noteq> hp then Some (u 0) else None)"

text \<open>\<open>del_rel h h' lv y u\<close>: the store \<open>h'\<close> is \<open>h\<close> with the node \<open>y\<close> unlinked from the nodes
  \<open>u j\<close> on the levels below \<open>lv\<close>.\<close>

definition del_rel ::
  "ZSkipListNode list \<Rightarrow> ZSkipListNode list \<Rightarrow> nat \<Rightarrow> nat \<Rightarrow> (nat \<Rightarrow> nat) \<Rightarrow> bool" where
  "del_rel h h' lv y u \<longleftrightarrow>
     frame h h' \<and>
     (\<forall>q j. fwd h' q j = (if j < lv \<and> q = u j \<and> fwd h (u j) j = Some y then fwd h y j else fwd h q j)) \<and>
     (\<forall>q j. spn h' q j =
        (if j < lv \<and> q = u j
         then (if fwd h (u j) j = Some y then spn h q j + (spn h y j - 1) else spn h q j - 1)
         else spn h q j)) \<and>
     (\<forall>q. bwd h' q = (if fwd h y 0 = Some q then bwd h y else bwd h q))"

text \<open>The nodes on the level-0 chain that starts at a pointer.\<close>

partial_function (option) chain0 :: "ZSkipListNode list \<Rightarrow> nat option \<Rightarrow> nat list option" where
  "chain0 h x =
     (case x of
        None \<Rightarrow> Some []
      | Some p \<Rightarrow> do { l \<leftarrow> slot_at h p 0; ps \<leftarrow> chain0 h (forward l); Some (p # ps) })"

declare chain0.simps [code]

definition nodes_of :: "ZSkipList \<Rightarrow> nat list option" where
  "nodes_of zsl = do { l \<leftarrow> slot_at (store zsl) (head zsl) 0; chain0 (store zsl) (forward l) }"

text \<open>\<open>models zsl es\<close>: the list \<open>zsl\<close> holds the entries \<open>es\<close>, sorted by \<open>ekey\<close>.\<close>

definition models :: "ZSkipList \<Rightarrow> (32 word \<times> entity) list \<Rightarrow> bool" where
  "models zsl es \<longleftrightarrow> (\<exists>ns. rep zsl ns \<and> map (entry (store zsl)) ns = sort_key ekey es)"

section \<open>The properties claimed, in the words of the specification\<close>

text \<open>The order of two nodes: score first, identity as tie-break.\<close>

definition node_lt :: "ZSkipListNode list \<Rightarrow> nat \<Rightarrow> nat \<Rightarrow> bool" where
  "node_lt h a b \<longleftrightarrow>
     Score (h ! a) < Score (h ! b) \<or>
     (Score (h ! a) = Score (h ! b) \<and> Uuid (the (Obj (h ! a))) < Uuid (the (Obj (h ! b))))"

text \<open>The sum of the level-0 spans on the way from the node \<open>x\<close> to the node \<open>t\<close>.\<close>

partial_function (option) span_sum :: "ZSkipListNode list \<Rightarrow> nat \<Rightarrow> nat \<Rightarrow> int \<Rightarrow> int option" where
  "span_sum h x t acc =
     (if x = t then Some acc
      else do {
        l \<leftarrow> slot_at h x 0;
        case forward l of None \<Rightarrow> None | Some f \<Rightarrow> span_sum h f t (acc + span l) })"

declare span_sum.simps [code]

text \<open>What an inspector has seen after it was shown the pairs of a list in turn, until it
  said stop.\<close>

fun visit :: "(int \<Rightarrow> entity option \<Rightarrow> 's \<Rightarrow> bool \<times> 's) \<Rightarrow> (int \<times> entity option) list \<Rightarrow> 's \<Rightarrow> 's" where
  "visit fn [] st = st"
| "visit fn ((r, e) # xs) st = (case fn r e st of (go, st') \<Rightarrow> if go then visit fn xs st' else st')"

section \<open>Insert keeps the representation\<close>

subsection \<open>Checked access\<close>

lemma arr_get_in [simp]: "i < length xs \<Longrightarrow> arr_get xs i = Some (xs ! i)"
  by (simp add: arr_get_def)

lemma arr_set_in [simp]: "i < length xs \<Longrightarrow> arr_set xs i v = Some (xs[i := v])"
  by (simp add: arr_set_def)

lemma slot_at_in:
  "p < length h \<Longrightarrow> i < ht h p \<Longrightarrow> slot_at h p i = Some \<lparr>forward = fwd h p i, span = spn h p i\<rparr>"
  by (simp add: slot_at_def ht_def fwd_def spn_def)

lemma set_forward_in:
  "p < length h \<Longrightarrow> i < ht h p \<Longrightarrow> set_forward h p i v = Some (put_fwd h p i v)"
  by (simp add: set_forward_def set_slot_def slot_at_def ht_def put_fwd_def)

lemma set_span_in:
  "p < length h \<Longrightarrow> i < ht h p \<Longrightarrow> set_span h p i v = Some (put_spn h p i v)"
  by (simp add: set_span_def set_slot_def slot_at_def ht_def put_spn_def)

lemma set_backward_in:
  "p < length h \<Longrightarrow> set_backward h p b = Some (put_bwd h p b)"
  by (simp add: set_backward_def put_bwd_def)

subsection \<open>Reading a store after a write\<close>

lemma nth_upd_field: "g n = g (h ! p) \<Longrightarrow> g (h[p := n] ! q) = g (h ! q)"
  by (cases "p < length h"; cases "q = p"; simp add: list_update_beyond)

lemma length_put [simp]:
  "length (put_fwd h p i f) = length h"
  "length (put_spn h p i v) = length h"
  "length (put_bwd h p b) = length h"
  by (simp_all add: put_fwd_def put_spn_def put_bwd_def)

lemma ht_put [simp]:
  "ht (put_fwd h p i f) = ht h"
  "ht (put_spn h p i v) = ht h"
  "ht (put_bwd h p b) = ht h"
  unfolding fun_eq_iff ht_def put_fwd_def put_spn_def put_bwd_def
  by (intro allI nth_upd_field [where g = "\<lambda>n. length (level n)"]; simp)+

lemma Obj_put [simp]:
  "Obj (put_fwd h p i f ! q) = Obj (h ! q)"
  "Obj (put_spn h p i v ! q) = Obj (h ! q)"
  "Obj (put_bwd h p b ! q) = Obj (h ! q)"
  unfolding put_fwd_def put_spn_def put_bwd_def
  by (rule nth_upd_field [where g = Obj]; simp)+

lemma Score_put [simp]:
  "Score (put_fwd h p i f ! q) = Score (h ! q)"
  "Score (put_spn h p i v ! q) = Score (h ! q)"
  "Score (put_bwd h p b ! q) = Score (h ! q)"
  unfolding put_fwd_def put_spn_def put_bwd_def
  by (rule nth_upd_field [where g = Score]; simp)+

lemma entry_put [simp]:
  "entry (put_fwd h p i f) = entry h"
  "entry (put_spn h p i v) = entry h"
  "entry (put_bwd h p b) = entry h"
  by (simp_all add: fun_eq_iff entry_def)

lemma key_of_put [simp]:
  "key_of (put_fwd h p i f) = key_of h"
  "key_of (put_spn h p i v) = key_of h"
  "key_of (put_bwd h p b) = key_of h"
  by (simp_all add: fun_eq_iff key_of_def)

lemma fwd_put_fwd:
  "p < length h \<Longrightarrow> i < ht h p \<Longrightarrow> fwd (put_fwd h p i f) q j = (if q = p \<and> j = i then f else fwd h q j)"
  by (cases "q = p"; cases "j = i"; simp add: fwd_def ht_def put_fwd_def)

lemma fwd_put_spn [simp]: "fwd (put_spn h p i v) = fwd h"
proof (intro ext)
  fix q j
  show "fwd (put_spn h p i v) q j = fwd h q j"
    unfolding fwd_def put_spn_def
    by (rule nth_upd_field [where g = "\<lambda>n. forward (level n ! j)"])
       (cases "i < length (level (h ! p))"; cases "j = i"; simp add: list_update_beyond)
qed

lemma fwd_put_bwd [simp]: "fwd (put_bwd h p b) = fwd h"
proof (intro ext)
  fix q j
  show "fwd (put_bwd h p b) q j = fwd h q j"
    unfolding fwd_def put_bwd_def
    by (rule nth_upd_field [where g = "\<lambda>n. forward (level n ! j)"]) simp
qed

lemma spn_put_spn:
  "p < length h \<Longrightarrow> i < ht h p \<Longrightarrow> spn (put_spn h p i v) q j = (if q = p \<and> j = i then v else spn h q j)"
  by (cases "q = p"; cases "j = i"; simp add: spn_def ht_def put_spn_def)

lemma spn_put_fwd [simp]: "spn (put_fwd h p i f) = spn h"
proof (intro ext)
  fix q j
  show "spn (put_fwd h p i f) q j = spn h q j"
    unfolding spn_def put_fwd_def
    by (rule nth_upd_field [where g = "\<lambda>n. span (level n ! j)"])
       (cases "i < length (level (h ! p))"; cases "j = i"; simp add: list_update_beyond)
qed

lemma spn_put_bwd [simp]: "spn (put_bwd h p b) = spn h"
proof (intro ext)
  fix q j
  show "spn (put_bwd h p b) q j = spn h q j"
    unfolding spn_def put_bwd_def
    by (rule nth_upd_field [where g = "\<lambda>n. span (level n ! j)"]) simp
qed

lemma bwd_put_bwd:
  "p < length h \<Longrightarrow> bwd (put_bwd h p b) q = (if q = p then b else bwd h q)"
  by (cases "q = p"; simp add: bwd_def put_bwd_def)

lemma bwd_put_other [simp]:
  "bwd (put_fwd h p i f) = bwd h"
  "bwd (put_spn h p i v) = bwd h"
  unfolding fun_eq_iff bwd_def put_fwd_def put_spn_def
  by (intro allI nth_upd_field [where g = backward]; simp)+

subsection \<open>The next node of a level\<close>

lemma nxt_Nil [simp]: "nxt hs i [] = None"
  by (simp add: nxt_def)

lemma dst_Nil [simp]: "dst hs i [] = 0"
  by (simp add: dst_def)

lemma nxt_Cons: "nxt hs i (b # B) = (if i < hs b then Some b else nxt hs i B)"
  by (simp add: nxt_def)

lemma dst_Cons: "dst hs i (b # B) = (if i < hs b then 1 else 1 + dst hs i B)"
  by (auto simp: dst_def)

lemma nxt_append_low: "\<forall>b\<in>set B. hs b \<le> i \<Longrightarrow> nxt hs i (B @ C) = nxt hs i C"
  by (induction B) (auto simp: nxt_Cons)

lemma dst_append_low: "\<forall>b\<in>set B. hs b \<le> i \<Longrightarrow> dst hs i (B @ C) = length B + dst hs i C"
  by (induction B) (auto simp: dst_Cons)

lemma nxt_None_iff: "nxt hs i B = None \<longleftrightarrow> (\<forall>b\<in>set B. hs b \<le> i)"
  by (induction B) (auto simp: nxt_Cons)

lemma dst_low: "\<forall>b\<in>set B. hs b \<le> i \<Longrightarrow> dst hs i B = length B"
  using dst_append_low [of B hs i "[]"] by simp

lemma nxt_SomeD:
  "nxt hs i B = Some f \<Longrightarrow> \<exists>B1 B2. B = B1 @ f # B2 \<and> (\<forall>b\<in>set B1. hs b \<le> i) \<and> i < hs f"
proof (induction B)
  case Nil
  then show ?case by simp
next
  case (Cons b B)
  show ?case
  proof (cases "i < hs b")
    case True
    with Cons.prems have "f = b" by (simp add: nxt_Cons)
    with True show ?thesis by (intro exI [of _ "[]"] exI [of _ B]) simp
  next
    case False
    with Cons.prems have "nxt hs i B = Some f" by (simp add: nxt_Cons)
    then obtain B1 B2 where "B = B1 @ f # B2" "\<forall>b\<in>set B1. hs b \<le> i" "i < hs f"
      using Cons.IH by blast
    with False show ?thesis by (intro exI [of _ "b # B1"] exI [of _ B2]) auto
  qed
qed

lemma nxt_hit: "\<forall>b\<in>set B1. hs b \<le> i \<Longrightarrow> i < hs f \<Longrightarrow> nxt hs i (B1 @ f # B2) = Some f"
  by (simp add: nxt_append_low nxt_Cons)

lemma dst_hit: "\<forall>b\<in>set B1. hs b \<le> i \<Longrightarrow> i < hs f \<Longrightarrow> dst hs i (B1 @ f # B2) = length B1 + 1"
  by (simp add: dst_append_low dst_Cons)

lemma slots_ok_iff: "slots_ok h lv xs \<longleftrightarrow> (\<forall>A a B. xs = A @ a # B \<longrightarrow> node_ok h lv a B)"
proof (induction xs)
  case Nil
  then show ?case by simp
next
  case (Cons x xs)
  show ?case
  proof
    assume ok: "slots_ok h lv (x # xs)"
    show "\<forall>A a B. x # xs = A @ a # B \<longrightarrow> node_ok h lv a B"
    proof (intro allI impI)
      fix A a B
      assume eq: "x # xs = A @ a # B"
      show "node_ok h lv a B"
      proof (cases A)
        case Nil
        with eq ok show ?thesis by simp
      next
        case (Cons y A')
        with eq have "xs = A' @ a # B" by simp
        with ok Cons.IH show ?thesis by simp
      qed
    qed
  next
    assume r: "\<forall>A a B. x # xs = A @ a # B \<longrightarrow> node_ok h lv a B"
    then have "node_ok h lv x xs" by (metis append_Nil)
    moreover have "\<forall>A a B. xs = A @ a # B \<longrightarrow> node_ok h lv a B"
      using r by (metis append_Cons)
    ultimately show "slots_ok h lv (x # xs)" using Cons.IH by simp
  qed
qed

lemma slots_okD: "slots_ok h lv (A @ a # B) \<Longrightarrow> node_ok h lv a B"
  by (simp add: slots_ok_iff)

lemma node_ok_fwd: "node_ok h lv a B \<Longrightarrow> i < ht h a \<Longrightarrow> fwd h a i = nxt (ht h) i B"
  by (simp add: node_ok_def)

lemma node_ok_spn: "node_ok h lv a B \<Longrightarrow> i < ht h a \<Longrightarrow> i < lv \<Longrightarrow> spn h a i = int (dst (ht h) i B)"
  by (simp add: node_ok_def)

subsection \<open>The comparisons\<close>

lemma key_lt_eq: "Obj (h ! f) \<noteq> None \<Longrightarrow> key_lt (h ! f) score uid = Some (key_of h f < (score, uid))"
  by (auto simp: key_lt_def key_of_def ekey_def entry_def)

lemma key_le_eq: "Obj (h ! f) \<noteq> None \<Longrightarrow> key_le (h ! f) score uid = Some (key_of h f \<le> (score, uid))"
  by (auto simp: key_le_def key_of_def ekey_def entry_def)

subsection \<open>The search of Insert\<close>

lemma shape_nodes:
  "shape h hp lv ns \<Longrightarrow> a \<in> set ns \<Longrightarrow> a < length h \<and> Obj (h ! a) \<noteq> None \<and> 1 \<le> ht h a \<and> ht h a \<le> lv \<and> a \<noteq> hp"
  by (auto simp: shape_def)

lemma shape_head: "shape h hp lv ns \<Longrightarrow> hp < length h \<and> ht h hp = ZSKIPLIST_MAXLEVEL \<and> lv \<le> ZSKIPLIST_MAXLEVEL \<and> 1 \<le> lv"
  by (simp add: shape_def)

lemma shape_all_in: "shape h hp lv ns \<Longrightarrow> a \<in> set (hp # ns) \<Longrightarrow> a < length h"
  by (auto simp: shape_def)

lemma insert_walk_shape:
  assumes sh: "shape h hp lv (pre @ post)"
    and pre: "\<forall>b\<in>set pre. key_of h b < (score, uid)"
    and post: "\<forall>b\<in>set post. \<not> key_of h b < (score, uid)"
    and i: "i < lv"
  shows "hp # pre = A @ a # B \<Longrightarrow> i < ht h a \<Longrightarrow>
     \<exists>A' u B'. insert_walk h score uid i a r = Some (u, r + int (length A') - int (length A)) \<and>
        hp # pre = A' @ u # B' \<and> i < ht h u \<and> (\<forall>b\<in>set B'. ht h b \<le> i)"
proof (induction "length B" arbitrary: A a B r rule: less_induct)
  case less
  have all: "hp # pre @ post = A @ a # (B @ post)" using less.prems(1) by simp
  have "slots_ok h lv (hp # pre @ post)" using sh by (simp add: shape_def)
  then have nok: "node_ok h lv a (B @ post)" using all slots_okD by metis
  have a_in: "a < length h"
    using shape_all_in [OF sh, of a] all by (metis append_Cons in_set_conv_decomp)
  have f: "fwd h a i = nxt (ht h) i (B @ post)" using node_ok_fwd [OF nok less.prems(2)] .
  have s: "spn h a i = int (dst (ht h) i (B @ post))" using node_ok_spn [OF nok less.prems(2) i] .
  show ?case
  proof (cases "nxt (ht h) i B")
    case None
    then have low: "\<forall>b\<in>set B. ht h b \<le> i" by (simp add: nxt_None_iff)
    have f': "fwd h a i = nxt (ht h) i post" using f low by (simp add: nxt_append_low)
    have "insert_walk h score uid i a r = Some (a, r)"
    proof (cases "nxt (ht h) i post")
      case None
      then show ?thesis
        by (subst insert_walk.simps) (simp add: slot_at_in a_in less.prems(2) f')
    next
      case (Some g)
      then have "g \<in> set post" using nxt_SomeD by fastforce
      then have "\<not> key_of h g < (score, uid)" "g < length h" "Obj (h ! g) \<noteq> None"
        using post shape_nodes [OF sh, of g] by auto
      then show ?thesis
        by (subst insert_walk.simps) (simp add: slot_at_in a_in less.prems(2) f' Some key_lt_eq)
    qed
    then show ?thesis using less.prems low by (intro exI [of _ A] exI [of _ a] exI [of _ B]) simp
  next
    case (Some g)
    then obtain B1 B2 where B: "B = B1 @ g # B2" and low: "\<forall>b\<in>set B1. ht h b \<le> i" and hi: "i < ht h g"
      using nxt_SomeD by metis
    have f': "fwd h a i = Some g" using f B low hi by (simp add: nxt_hit)
    have s': "spn h a i = int (length B1) + 1" using s B low hi by (simp add: dst_hit)
    have "g \<in> set pre" using less.prems(1) B
      by (cases A) auto
    then have g: "key_of h g < (score, uid)" "g < length h" "Obj (h ! g) \<noteq> None"
      using pre shape_nodes [OF sh, of g] by auto
    have step: "insert_walk h score uid i a r = insert_walk h score uid i g (r + (int (length B1) + 1))"
      by (subst insert_walk.simps) (simp add: slot_at_in a_in less.prems(2) f' s' g key_lt_eq)
    have "length B2 < length B" using B by simp
    moreover have "hp # pre = (A @ a # B1) @ g # B2" using less.prems(1) B by simp
    ultimately obtain A' u B' where
      "insert_walk h score uid i g (r + (int (length B1) + 1)) =
         Some (u, (r + (int (length B1) + 1)) + int (length A') - int (length (A @ a # B1)))"
      "hp # pre = A' @ u # B'" "i < ht h u" "\<forall>b\<in>set B'. ht h b \<le> i"
      using less.hyps [of B2 "A @ a # B1" g "r + (int (length B1) + 1)"] hi by blast
    then show ?thesis using step by (intro exI [of _ A'] exI [of _ u] exI [of _ B']) simp
  qed
qed

lemma insert_search_shape:
  assumes sh: "shape h hp lv (pre @ post)"
    and pre: "\<forall>b\<in>set pre. key_of h b < (score, uid)"
    and post: "\<forall>b\<in>set post. \<not> key_of h b < (score, uid)"
  shows "n \<le> lv \<Longrightarrow> hp # pre = A @ a # B \<Longrightarrow> n \<le> ht h a \<Longrightarrow>
     length update = ZSKIPLIST_MAXLEVEL \<Longrightarrow> length rank = ZSKIPLIST_MAXLEVEL \<Longrightarrow>
     (if n = lv then rank ! (n - 1) else rank ! n) = int (length A) \<Longrightarrow>
     \<exists>U R. insert_search h score uid lv n a update rank = Some (U, R) \<and>
       length U = ZSKIPLIST_MAXLEVEL \<and> length R = ZSKIPLIST_MAXLEVEL \<and>
       (\<forall>j<n. \<exists>u. U ! j = Some u \<and> pred_at h (hp # pre) j u (R ! j)) \<and>
       (\<forall>j. n \<le> j \<longrightarrow> U ! j = update ! j \<and> R ! j = rank ! j)"
proof (induction n arbitrary: A a B update rank)
  case 0
  then show ?case by simp
next
  case (Suc i)
  have lv12: "lv \<le> ZSKIPLIST_MAXLEVEL" using sh by (simp add: shape_def)
  have i12: "i < ZSKIPLIST_MAXLEVEL" "i < lv" "Suc i < ZSKIPLIST_MAXLEVEL \<or> Suc i = lv"
    using Suc.prems(1) lv12 by auto
  define rank1 where "rank1 = (if i \<noteq> lv - 1 then rank[i := rank ! (i + 1)] else rank)"
  have r1: "(if i \<noteq> lv - 1 then do { r \<leftarrow> arr_get rank (i + 1); arr_set rank i r } else Some rank) = Some rank1"
    using i12 Suc.prems(1,5) by (auto simp: rank1_def)
  have len1: "length rank1 = ZSKIPLIST_MAXLEVEL" using Suc.prems(5) by (simp add: rank1_def)
  have r0: "rank1 ! i = int (length A)"
    using Suc.prems(6) i12 Suc.prems(5) by (auto simp: rank1_def split: if_splits)
  obtain A' u B' where w: "insert_walk h score uid i a (rank1 ! i) = Some (u, rank1 ! i + int (length A') - int (length A))"
    and split': "hp # pre = A' @ u # B'" and hu: "i < ht h u" and low: "\<forall>b\<in>set B'. ht h b \<le> i"
    using insert_walk_shape [OF sh pre post i12(2) Suc.prems(2), of "rank1 ! i"] Suc.prems(3) by auto
  define rank2 where "rank2 = rank1[i := int (length A')]"
  define update' where "update' = update[i := Some u]"
  have len2: "length rank2 = ZSKIPLIST_MAXLEVEL" "length update' = ZSKIPLIST_MAXLEVEL"
    using len1 Suc.prems(4) by (simp_all add: rank2_def update'_def)
  have "(if i = lv then rank2 ! (i - 1) else rank2 ! i) = int (length A')"
    using i12 len1 by (simp add: rank2_def)
  then obtain U R where rec: "insert_search h score uid lv i u update' rank2 = Some (U, R)"
    and lens: "length U = ZSKIPLIST_MAXLEVEL" "length R = ZSKIPLIST_MAXLEVEL"
    and below: "\<forall>j<i. \<exists>u. U ! j = Some u \<and> pred_at h (hp # pre) j u (R ! j)"
    and above: "\<forall>j. i \<le> j \<longrightarrow> U ! j = update' ! j \<and> R ! j = rank2 ! j"
    using Suc.IH [of A' u B' update' rank2] i12 split' hu len2 by auto
  have run: "insert_search h score uid lv (Suc i) a update rank = Some (U, R)"
    using r1 w r0 rec len1 i12 Suc.prems(4) by (simp add: rank2_def update'_def)
  have at_i: "U ! i = Some u" "R ! i = int (length A')"
    using above len1 Suc.prems(4) i12 by (simp_all add: rank2_def update'_def)
  have pi: "pred_at h (hp # pre) i u (R ! i)"
    unfolding pred_at_def using split' hu low at_i by blast
  have "\<forall>j<Suc i. \<exists>u. U ! j = Some u \<and> pred_at h (hp # pre) j u (R ! j)"
    using below pi at_i by (auto simp: less_Suc_eq)
  moreover have "\<forall>j. Suc i \<le> j \<longrightarrow> U ! j = update ! j \<and> R ! j = rank ! j"
    using above by (auto simp: rank2_def update'_def rank1_def)
  ultimately show ?case using run lens by blast
qed

lemma delete_walk_shape:
  assumes sh: "shape h hp lv (pre @ post)"
    and pre: "\<forall>b\<in>set pre. key_of h b < (score, uid)"
    and post: "\<forall>b\<in>set post. \<not> key_of h b < (score, uid)"
  shows "hp # pre = A @ a # B \<Longrightarrow> i < ht h a \<Longrightarrow>
     \<exists>A' u B'. delete_walk h score uid i a = Some u \<and>
        hp # pre = A' @ u # B' \<and> i < ht h u \<and> (\<forall>b\<in>set B'. ht h b \<le> i)"
proof (induction "length B" arbitrary: A a B rule: less_induct)
  case less
  have all: "hp # pre @ post = A @ a # (B @ post)" using less.prems(1) by simp
  have "slots_ok h lv (hp # pre @ post)" using sh by (simp add: shape_def)
  then have nok: "node_ok h lv a (B @ post)" using all slots_okD by metis
  have a_in: "a < length h"
    using shape_all_in [OF sh, of a] all by (metis append_Cons in_set_conv_decomp)
  have f: "fwd h a i = nxt (ht h) i (B @ post)" using node_ok_fwd [OF nok less.prems(2)] .
  show ?case
  proof (cases "nxt (ht h) i B")
    case None
    then have low: "\<forall>b\<in>set B. ht h b \<le> i" by (simp add: nxt_None_iff)
    have f': "fwd h a i = nxt (ht h) i post" using f low by (simp add: nxt_append_low)
    have "delete_walk h score uid i a = Some a"
    proof (cases "nxt (ht h) i post")
      case None
      then show ?thesis
        by (subst delete_walk.simps) (simp add: slot_at_in a_in less.prems(2) f')
    next
      case (Some g)
      then have "g \<in> set post" using nxt_SomeD by fastforce
      then have "\<not> key_of h g < (score, uid)" "g < length h" "Obj (h ! g) \<noteq> None"
        using post shape_nodes [OF sh, of g] by auto
      then show ?thesis
        by (subst delete_walk.simps) (simp add: slot_at_in a_in less.prems(2) f' Some key_lt_eq)
    qed
    then show ?thesis using less.prems low by (intro exI [of _ A] exI [of _ a] exI [of _ B]) simp
  next
    case (Some g)
    then obtain B1 B2 where B: "B = B1 @ g # B2" and low: "\<forall>b\<in>set B1. ht h b \<le> i" and hi: "i < ht h g"
      using nxt_SomeD by metis
    have f': "fwd h a i = Some g" using f B low hi by (simp add: nxt_hit)
    have "g \<in> set pre" using less.prems(1) B by (cases A) auto
    then have g: "key_of h g < (score, uid)" "g < length h" "Obj (h ! g) \<noteq> None"
      using pre shape_nodes [OF sh, of g] by auto
    have step: "delete_walk h score uid i a = delete_walk h score uid i g"
      by (subst delete_walk.simps) (simp add: slot_at_in a_in less.prems(2) f' g key_lt_eq)
    have "length B2 < length B" using B by simp
    moreover have "hp # pre = (A @ a # B1) @ g # B2" using less.prems(1) B by simp
    ultimately obtain A' u B' where
      "delete_walk h score uid i g = Some u"
      "hp # pre = A' @ u # B'" "i < ht h u" "\<forall>b\<in>set B'. ht h b \<le> i"
      using less.hyps [of B2 "A @ a # B1" g] hi by blast
    then show ?thesis using step by (intro exI [of _ A'] exI [of _ u] exI [of _ B']) simp
  qed
qed

lemma delete_search_shape:
  assumes sh: "shape h hp lv (pre @ post)"
    and pre: "\<forall>b\<in>set pre. key_of h b < (score, uid)"
    and post: "\<forall>b\<in>set post. \<not> key_of h b < (score, uid)"
  shows "n \<le> lv \<Longrightarrow> hp # pre = A @ a # B \<Longrightarrow> n \<le> ht h a \<Longrightarrow>
     length update = ZSKIPLIST_MAXLEVEL \<Longrightarrow> (n = 0 \<longrightarrow> B = []) \<Longrightarrow>
     \<exists>U. delete_search h score uid n a update = Some (last (hp # pre), U) \<and>
       length U = ZSKIPLIST_MAXLEVEL \<and>
       (\<forall>j<n. \<exists>u A B. U ! j = Some u \<and> hp # pre = A @ u # B \<and> j < ht h u \<and> (\<forall>b\<in>set B. ht h b \<le> j)) \<and>
       (\<forall>j. n \<le> j \<longrightarrow> U ! j = update ! j)"
proof (induction n arbitrary: A a B update)
  case 0
  then show ?case by simp
next
  case (Suc i)
  have lv12: "lv \<le> ZSKIPLIST_MAXLEVEL" using sh by (simp add: shape_def)
  have i12: "i < ZSKIPLIST_MAXLEVEL" "i < lv" using Suc.prems(1) lv12 by auto
  obtain A' u B' where w: "delete_walk h score uid i a = Some u"
    and split': "hp # pre = A' @ u # B'" and hu: "i < ht h u" and low: "\<forall>b\<in>set B'. ht h b \<le> i"
    using delete_walk_shape [OF sh pre post Suc.prems(2), of i] Suc.prems(3) by auto
  define update' where "update' = update[i := Some u]"
  have len2: "length update' = ZSKIPLIST_MAXLEVEL" using Suc.prems(4) by (simp add: update'_def)
  have "i = 0 \<longrightarrow> B' = []"
  proof
    assume "i = 0"
    show "B' = []"
    proof (rule ccontr)
      assume "B' \<noteq> []"
      then obtain b where b: "b \<in> set B'" by (cases B') auto
      then have "b \<in> set pre" using split' by (cases A') auto
      then have "1 \<le> ht h b" using shape_nodes [OF sh, of b] by simp
      with low b \<open>i = 0\<close> show False by auto
    qed
  qed
  then obtain U where rec: "delete_search h score uid i u update' = Some (last (hp # pre), U)"
    and lens: "length U = ZSKIPLIST_MAXLEVEL"
    and below: "\<forall>j<i. \<exists>u A B. U ! j = Some u \<and> hp # pre = A @ u # B \<and> j < ht h u \<and> (\<forall>b\<in>set B. ht h b \<le> j)"
    and above: "\<forall>j. i \<le> j \<longrightarrow> U ! j = update' ! j"
    using Suc.IH [of A' u B' update'] i12 split' hu len2 by auto
  have run: "delete_search h score uid (Suc i) a update = Some (last (hp # pre), U)"
    using w rec i12 Suc.prems(4) by (simp add: update'_def)
  have at_i: "U ! i = Some u" using above Suc.prems(4) i12 by (simp add: update'_def)
  have "\<forall>j<Suc i. \<exists>u A B. U ! j = Some u \<and> hp # pre = A @ u # B \<and> j < ht h u \<and> (\<forall>b\<in>set B. ht h b \<le> j)"
    using below at_i split' hu low by (auto simp: less_Suc_eq)
  moreover have "\<forall>j. Suc i \<le> j \<longrightarrow> U ! j = update ! j"
    using above by (auto simp: update'_def)
  ultimately show ?case using run lens by blast
qed

lemma frame_refl [simp]: "frame h h"
  by (simp add: frame_def)

lemma frame_trans: "frame h h1 \<Longrightarrow> frame h1 h2 \<Longrightarrow> frame h h2"
  by (simp add: frame_def)

lemma frame_put [simp]:
  "frame h (put_fwd h p i f)"
  "frame h (put_spn h p i v)"
  "frame h (put_bwd h p b)"
  by (simp_all add: frame_def)

lemma frame_put' :
  "frame h h' \<Longrightarrow> frame h (put_fwd h' p i f)"
  "frame h h' \<Longrightarrow> frame h (put_spn h' p i v)"
  "frame h h' \<Longrightarrow> frame h (put_bwd h' p b)"
  by (simp_all add: frame_def)

lemma frame_key_of: "frame h h' \<Longrightarrow> key_of h' = key_of h"
  by (simp add: frame_def key_of_def fun_eq_iff)

lemma ptr_at_in: "i < length U \<Longrightarrow> U ! i = Some u \<Longrightarrow> ptr_at U i = Some u"
  by (simp add: ptr_at_def)

lemma raise_loop:
  assumes hp: "hp < length h" "ht h hp = ZSKIPLIST_MAXLEVEL"
    and len: "length U = ZSKIPLIST_MAXLEVEL" "length R = ZSKIPLIST_MAXLEVEL"
  shows "lv + n \<le> ZSKIPLIST_MAXLEVEL \<Longrightarrow>
    \<exists>h' U' R'. for_up lv n (insert_raise hp len) (h, U, R) = Some (h', U', R') \<and>
      frame h h' \<and> fwd h' = fwd h \<and> bwd h' = bwd h \<and>
      (\<forall>q j. spn h' q j = (if q = hp \<and> lv \<le> j \<and> j < lv + n then len else spn h q j)) \<and>
      length U' = ZSKIPLIST_MAXLEVEL \<and> length R' = ZSKIPLIST_MAXLEVEL \<and>
      (\<forall>j. U' ! j = (if lv \<le> j \<and> j < lv + n then Some hp else U ! j)) \<and>
      (\<forall>j. R' ! j = (if lv \<le> j \<and> j < lv + n then 0 else R ! j))"
proof (induction n)
  case 0
  then show ?case using len by auto
next
  case (Suc n)
  then obtain h' U' R' where run: "for_up lv n (insert_raise hp len) (h, U, R) = Some (h', U', R')"
    and fr: "frame h h'" and f: "fwd h' = fwd h" and b: "bwd h' = bwd h"
    and s: "\<forall>q j. spn h' q j = (if q = hp \<and> lv \<le> j \<and> j < lv + n then len else spn h q j)"
    and lens: "length U' = ZSKIPLIST_MAXLEVEL" "length R' = ZSKIPLIST_MAXLEVEL"
    and u: "\<forall>j. U' ! j = (if lv \<le> j \<and> j < lv + n then Some hp else U ! j)"
    and r: "\<forall>j. R' ! j = (if lv \<le> j \<and> j < lv + n then 0 else R ! j)"
    by auto
  have i: "lv + n < ZSKIPLIST_MAXLEVEL" using Suc.prems by simp
  have hp': "hp < length h'" "lv + n < ht h' hp" using fr hp i by (simp_all add: frame_def)
  define h2 where "h2 = put_spn h' hp (lv + n) len"
  have body: "insert_raise hp len (lv + n) (h', U', R') = Some (h2, U'[lv + n := Some hp], R'[lv + n := 0])"
    using i lens hp' by (simp add: insert_raise_def ptr_at_in set_span_in h2_def)
  have "\<forall>q j. spn h2 q j = (if q = hp \<and> lv \<le> j \<and> j < lv + Suc n then len else spn h q j)"
    using s hp' by (auto simp: h2_def spn_put_spn)
  moreover have "\<forall>j. (U'[lv + n := Some hp]) ! j = (if lv \<le> j \<and> j < lv + Suc n then Some hp else U ! j)"
    using u lens i by (auto simp: nth_list_update)
  moreover have "\<forall>j. (R'[lv + n := 0]) ! j = (if lv \<le> j \<and> j < lv + Suc n then 0 else R ! j)"
    using r lens i by (auto simp: nth_list_update)
  moreover have "frame h h2" "fwd h2 = fwd h" "bwd h2 = bwd h"
    using fr f b by (simp_all add: h2_def frame_put')
  ultimately show ?case using run body lens by simp
qed

lemma link_loop:
  assumes x: "x < length h" "ht h x = lvl"
    and len: "length U = ZSKIPLIST_MAXLEVEL" "length R = ZSKIPLIST_MAXLEVEL" "lvl \<le> ZSKIPLIST_MAXLEVEL"
    and u: "\<forall>j<lvl. U ! j = Some (u j) \<and> u j < length h \<and> j < ht h (u j) \<and> u j \<noteq> x"
    and lvl: "1 \<le> lvl"
  shows "n \<le> lvl \<Longrightarrow>
    \<exists>h'. for_up 0 n (insert_link x U R) h = Some h' \<and>
      frame h h' \<and> bwd h' = bwd h \<and>
      (\<forall>q j. fwd h' q j = (if j < n \<and> q = x then fwd h (u j) j
                           else if j < n \<and> q = u j then Some x else fwd h q j)) \<and>
      (\<forall>q j. spn h' q j = (if j < n \<and> q = x then spn h (u j) j - (R ! 0 - R ! j)
                           else if j < n \<and> q = u j then (R ! 0 - R ! j) + 1 else spn h q j))"
proof (induction n)
  case 0
  then show ?case by simp
next
  case (Suc n)
  then obtain h' where run: "for_up 0 n (insert_link x U R) h = Some h'"
    and fr: "frame h h'" and b: "bwd h' = bwd h"
    and f: "\<forall>q j. fwd h' q j = (if j < n \<and> q = x then fwd h (u j) j
                           else if j < n \<and> q = u j then Some x else fwd h q j)"
    and s: "\<forall>q j. spn h' q j = (if j < n \<and> q = x then spn h (u j) j - (R ! 0 - R ! j)
                           else if j < n \<and> q = u j then (R ! 0 - R ! j) + 1 else spn h q j)"
    by auto
  have n: "n < lvl" "n < ZSKIPLIST_MAXLEVEL" "0 < ZSKIPLIST_MAXLEVEL" using Suc.prems len lvl by auto
  have un: "U ! n = Some (u n)" "u n < length h" "n < ht h (u n)" "u n \<noteq> x" using u n by auto
  have fr': "length h' = length h" "ht h' = ht h" using fr by (simp_all add: frame_def)
  define h1 where "h1 = put_fwd h' x n (fwd h' (u n) n)"
  define h2 where "h2 = put_fwd h1 (u n) n (Some x)"
  define h3 where "h3 = put_spn h2 x n (spn h2 (u n) n - (R ! 0 - R ! n))"
  define h4 where "h4 = put_spn h3 (u n) n ((R ! 0 - R ! n) + 1)"
  have body: "insert_link x U R n h' = Some h4"
    using n un x len fr'
    by (simp add: insert_link_def ptr_at_in slot_at_in set_forward_in set_span_in h1_def h2_def h3_def h4_def)
  have f4: "\<forall>q j. fwd h4 q j = (if j < Suc n \<and> q = x then fwd h (u j) j
                           else if j < Suc n \<and> q = u j then Some x else fwd h q j)"
    using f n un x fr'
    by (auto simp: h1_def h2_def h3_def h4_def fwd_put_fwd less_Suc_eq)
  have s4: "\<forall>q j. spn h4 q j = (if j < Suc n \<and> q = x then spn h (u j) j - (R ! 0 - R ! j)
                           else if j < Suc n \<and> q = u j then (R ! 0 - R ! j) + 1 else spn h q j)"
    using s n un x fr'
    by (auto simp: h1_def h2_def h3_def h4_def spn_put_spn less_Suc_eq)
  have "frame h h4" "bwd h4 = bwd h"
    using fr b by (simp_all add: h1_def h2_def h3_def h4_def frame_put')
  then show ?case using run body f4 s4 by simp
qed

lemma bump_loop:
  assumes len: "length U = ZSKIPLIST_MAXLEVEL"
    and u: "\<forall>j. lo \<le> j \<and> j < lv \<longrightarrow> U ! j = Some (u j) \<and> u j < length h \<and> j < ht h (u j)"
    and lv: "lv \<le> ZSKIPLIST_MAXLEVEL"
  shows "lo + n \<le> lv \<Longrightarrow>
    \<exists>h'. for_up lo n (insert_bump U) h = Some h' \<and>
      frame h h' \<and> bwd h' = bwd h \<and> fwd h' = fwd h \<and>
      (\<forall>q j. spn h' q j = (if lo \<le> j \<and> j < lo + n \<and> q = u j then spn h q j + 1 else spn h q j))"
proof (induction n)
  case 0
  then show ?case by simp
next
  case (Suc n)
  then obtain h' where run: "for_up lo n (insert_bump U) h = Some h'"
    and fr: "frame h h'" and b: "bwd h' = bwd h" and f: "fwd h' = fwd h"
    and s: "\<forall>q j. spn h' q j = (if lo \<le> j \<and> j < lo + n \<and> q = u j then spn h q j + 1 else spn h q j)"
    by auto
  have n: "lo + n < lv" "lo + n < ZSKIPLIST_MAXLEVEL" using Suc.prems lv by auto
  have un: "U ! (lo + n) = Some (u (lo + n))" "u (lo + n) < length h" "lo + n < ht h (u (lo + n))"
    using u n by auto
  have fr': "length h' = length h" "ht h' = ht h" using fr by (simp_all add: frame_def)
  define h1 where "h1 = put_spn h' (u (lo + n)) (lo + n) (spn h' (u (lo + n)) (lo + n) + 1)"
  have body: "insert_bump U (lo + n) h' = Some h1"
    using n un len fr' by (simp add: insert_bump_def ptr_at_in slot_at_in set_span_in h1_def)
  have s1: "\<forall>q j. spn h1 q j = (if lo \<le> j \<and> j < lo + Suc n \<and> q = u j then spn h q j + 1 else spn h q j)"
    using s n un fr' by (auto simp: h1_def spn_put_spn less_Suc_eq)
  have "frame h h1" "bwd h1 = bwd h" "fwd h1 = fwd h"
    using fr b f by (simp_all add: h1_def frame_put')
  then show ?case using run body s1 by simp
qed

subsection \<open>Lists cut at a node\<close>

lemma split_compare:
  "A @ a # B = A' @ u # B' \<Longrightarrow> (A = A' \<and> a = u \<and> B = B') \<or> u \<in> set B \<or> a \<in> set B'"
  by (auto simp: append_eq_append_conv2 Cons_eq_append_conv append_eq_Cons_conv)

lemma split_cases:
  "xs @ y # ys = A @ a # B \<Longrightarrow>
     (\<exists>B1. xs = A @ a # B1 \<and> B = B1 @ y # ys) \<or> (A = xs \<and> a = y \<and> B = ys) \<or>
     (\<exists>A1. ys = A1 @ a # B \<and> A = xs @ y # A1)"
  by (auto simp: append_eq_append_conv2 Cons_eq_append_conv append_eq_Cons_conv)

lemma split_cases2:
  "xs @ ys = A @ a # B \<Longrightarrow>
     (\<exists>B1. xs = A @ a # B1 \<and> B = B1 @ ys) \<or> (\<exists>A1. ys = A1 @ a # B \<and> A = xs @ A1)"
  by (auto simp: append_eq_append_conv2 Cons_eq_append_conv append_eq_Cons_conv)

lemma pred_at_iff:
  assumes d: "distinct P" and P: "P = A @ a # B" and hi: "i < ht h a" and p: "pred_at h P i u r"
  shows "a = u \<longleftrightarrow> (\<forall>b\<in>set B. ht h b \<le> i)"
proof -
  obtain A' B' where P': "P = A' @ u # B'" and hu: "i < ht h u" and low: "\<forall>b\<in>set B'. ht h b \<le> i"
    using p by (auto simp: pred_at_def)
  have c: "(A = A' \<and> a = u \<and> B = B') \<or> u \<in> set B \<or> a \<in> set B'"
    using split_compare [of A a B A' u B'] P P' by simp
  show ?thesis
  proof
    assume "a = u"
    then have "u \<notin> set B" "a \<notin> set B'" using d P d [unfolded P'] by auto
    with c low show "\<forall>b\<in>set B. ht h b \<le> i" by auto
  next
    assume "\<forall>b\<in>set B. ht h b \<le> i"
    with c hu hi low show "a = u" by (metis not_less)
  qed
qed

lemma pred_at_rank:
  assumes d: "distinct P" and P: "P = A @ u # B" and p: "pred_at h P i u r"
  shows "r = int (length A)"
proof -
  obtain A' B' where P': "P = A' @ u # B'" and r: "r = int (length A')"
    using p by (auto simp: pred_at_def)
  have "u \<notin> set B" "u \<notin> set B'" using d [unfolded P] d [unfolded P'] by auto
  then have "A = A'" using split_compare [of A u B A' u B'] P P' by auto
  with r show ?thesis by simp
qed

lemma pred_at_in: "pred_at h P i u r \<Longrightarrow> u \<in> set P \<and> i < ht h u"
  by (auto simp: pred_at_def)

subsection \<open>Next node and distance in a list with one node more\<close>

lemma nxt_append: "nxt hs i (B @ C) = (if nxt hs i B = None then nxt hs i C else nxt hs i B)"
  by (induction B) (auto simp: nxt_Cons)

lemma dst_append: "dst hs i (B @ C) = (if nxt hs i B = None then length B + dst hs i C else dst hs i B)"
  by (induction B) (auto simp: nxt_Cons dst_Cons)

lemma nxt_cong: "\<forall>b\<in>set B. hs' b = hs b \<Longrightarrow> nxt hs' i B = nxt hs i B"
  by (induction B) (auto simp: nxt_Cons)

lemma dst_cong: "\<forall>b\<in>set B. hs' b = hs b \<Longrightarrow> dst hs' i B = dst hs i B"
  by (induction B) (auto simp: dst_Cons)

lemma nxt_ins:
  assumes "\<forall>b\<in>set (B @ C). hs' b = hs b"
  shows "nxt hs' i (B @ x # C) =
     (if nxt hs i B = None then (if i < hs' x then Some x else nxt hs i C) else nxt hs i B)"
proof -
  have "nxt hs' i B = nxt hs i B" "nxt hs' i C = nxt hs i C"
    using assms by (auto intro: nxt_cong)
  then show ?thesis by (simp add: nxt_append nxt_Cons)
qed

lemma dst_ins:
  assumes "\<forall>b\<in>set (B @ C). hs' b = hs b"
  shows "dst hs' i (B @ x # C) =
     (if nxt hs i B = None then length B + (if i < hs' x then 1 else 1 + dst hs i C) else dst hs i B)"
proof -
  have "nxt hs' i B = nxt hs i B" "dst hs' i B = dst hs i B" "dst hs' i C = dst hs i C"
    using assms by (auto intro: nxt_cong dst_cong)
  then show ?thesis by (simp add: dst_append dst_Cons)
qed

lemma nxt_level0: "\<forall>b\<in>set B. 1 \<le> hs b \<Longrightarrow> nxt hs 0 B = (case B of [] \<Rightarrow> None | b # _ \<Rightarrow> Some b)"
  by (cases B) (auto simp: nxt_Cons)

subsection \<open>Backward links\<close>

lemma backs_ok_append:
  "backs_ok h p (A @ B) = (backs_ok h p A \<and> backs_ok h (if A = [] then p else Some (last A)) B)"
  by (induction A arbitrary: p) auto

lemma backs_ok_cong: "\<forall>q\<in>set A. bwd h' q = bwd h q \<Longrightarrow> backs_ok h' p A = backs_ok h p A"
  by (induction A arbitrary: p) auto

lemma shape_distinct: "shape h hp lv ns \<Longrightarrow> distinct (hp # ns)"
  by (simp add: shape_def)

lemma shape_slots: "shape h hp lv ns \<Longrightarrow> hp # ns = A @ a # B \<Longrightarrow> node_ok h lv a B"
  using slots_okD [of h lv A a B] by (simp add: shape_def)

lemma pred_at_level0:
  assumes sh: "shape h hp lv (pre @ post)" and p: "pred_at h (hp # pre) 0 u0 r0"
  shows "u0 = last (hp # pre) \<and> r0 = int (length pre)"
proof -
  obtain A B where P: "hp # pre = A @ u0 # B" and low: "\<forall>b\<in>set B. ht h b \<le> 0" and r: "r0 = int (length A)"
    using p by (auto simp: pred_at_def)
  have "B = []"
  proof (rule ccontr)
    assume "B \<noteq> []"
    then obtain b where b: "b \<in> set B" by (cases B) auto
    then have "b \<in> set pre" using P by (cases A) auto
    then have "1 \<le> ht h b" using shape_nodes [OF sh, of b] by simp
    with low b show False by auto
  qed
  with P have P': "hp # pre = A @ [u0]" by simp
  then have "last (hp # pre) = u0" by (metis last_snoc)
  moreover have "length (hp # pre) = length (A @ [u0])" using P' by simp
  ultimately show ?thesis using r by simp
qed

lemma ins_rel_new:
  "ins_rel h h' hp lv x lvl u r \<Longrightarrow>
     x = length h \<and> length h' = Suc (length h) \<and> 1 \<le> lvl \<and> lvl \<le> lv \<and> ht h' x = lvl \<and> Obj (h' ! x) \<noteq> None"
  unfolding ins_rel_def by blast

lemma ins_rel_old:
  "ins_rel h h' hp lv x lvl u r \<Longrightarrow> q < length h \<Longrightarrow>
     ht h' q = ht h q \<and> Obj (h' ! q) = Obj (h ! q) \<and> key_of h' q = key_of h q"
  unfolding ins_rel_def by blast

lemma ins_rel_fwd:
  "ins_rel h h' hp lv x lvl u r \<Longrightarrow> q < length h \<Longrightarrow>
     fwd h' q j = (if j < lvl \<and> q = u j then Some x else fwd h q j)"
  unfolding ins_rel_def by blast

lemma ins_rel_fwd_new:
  "ins_rel h h' hp lv x lvl u r \<Longrightarrow> j < lvl \<Longrightarrow> fwd h' x j = fwd h (u j) j"
  unfolding ins_rel_def by blast

lemma ins_rel_spn:
  "ins_rel h h' hp lv x lvl u r \<Longrightarrow> q < length h \<Longrightarrow>
     spn h' q j = (if j < lv \<and> q = u j then (if j < lvl then r 0 - r j + 1 else spn h q j + 1)
                      else spn h q j)"
  unfolding ins_rel_def by blast

lemma ins_rel_spn_new:
  "ins_rel h h' hp lv x lvl u r \<Longrightarrow> j < lvl \<Longrightarrow> spn h' x j = spn h (u j) j - (r 0 - r j)"
  unfolding ins_rel_def by blast

lemma ins_rel_bwd:
  "ins_rel h h' hp lv x lvl u r \<Longrightarrow> q < length h \<Longrightarrow>
     bwd h' q = (if fwd h (u 0) 0 = Some q then Some x else bwd h q)"
  unfolding ins_rel_def by blast

lemma ins_rel_bwd_new:
  "ins_rel h h' hp lv x lvl u r \<Longrightarrow> bwd h' x = (if u 0 \<noteq> hp then Some (u 0) else None)"
  unfolding ins_rel_def by blast

lemma ins_node_pre:
  assumes sh: "shape h hp lv (pre @ post)"
    and pr: "\<forall>j<lv. pred_at h (hp # pre) j (u j) (r j)"
    and rel: "ins_rel h h' hp lv x lvl u r"
    and sp: "hp # pre = A @ a # B1"
  shows "node_ok h' lv a (B1 @ x # post)"
proof -
  have all: "hp # pre @ post = A @ a # (B1 @ post)" using sp by simp
  have old: "node_ok h lv a (B1 @ post)" using shape_slots [OF sh all] .
  have a: "a < length h" using shape_all_in [OF sh, of a] all by (metis in_set_conv_decomp append_Cons)
  have inB: "\<forall>b\<in>set (B1 @ post). b < length h"
    using shape_all_in [OF sh] all by (metis in_set_conv_decomp append_Cons list.set_intros(2) Un_iff set_append)
  have agree: "\<forall>b\<in>set (B1 @ post). ht h' b = ht h b" using inB ins_rel_old [OF rel] by blast
  have hx: "ht h' x = lvl" and hta: "ht h' a = ht h a" and lvl: "1 \<le> lvl" "lvl \<le> lv"
    using ins_rel_new [OF rel] ins_rel_old [OF rel a] by auto
  have d: "distinct (hp # pre)" using shape_distinct [OF sh] by simp
  have lv0: "0 < lv" using sh by (simp add: shape_def)
  have r0: "r 0 = int (length pre)" using pred_at_level0 [OF sh] pr lv0 by blast
  have lenpre: "length pre = length A + length B1"
  proof -
    have "length (hp # pre) = length (A @ a # B1)" using sp by simp
    then show ?thesis by simp
  qed
  have F: "\<And>j. fwd h' a j = (if j < lvl \<and> a = u j then Some x else fwd h a j)"
    using ins_rel_fwd [OF rel a] .
  have S: "\<And>j. spn h' a j = (if j < lv \<and> a = u j then (if j < lvl then r 0 - r j + 1 else spn h a j + 1)
                      else spn h a j)"
    using ins_rel_spn [OF rel a] .
  show ?thesis
    unfolding node_ok_def
  proof (intro allI impI)
    fix i
    assume "i < ht h' a"
    then have i: "i < ht h a" using hta by simp
    define c where "c \<longleftrightarrow> nxt (ht h) i B1 = None"
    have of: "fwd h a i = (if c then nxt (ht h) i post else nxt (ht h) i B1)"
      using node_ok_fwd [OF old i] by (simp add: nxt_append c_def)
    have nf: "nxt (ht h') i (B1 @ x # post) =
        (if c then (if i < lvl then Some x else nxt (ht h) i post) else nxt (ht h) i B1)"
      using nxt_ins [OF agree, of i x] hx by (simp add: c_def)
    have nd: "dst (ht h') i (B1 @ x # post) =
        (if c then length B1 + (if i < lvl then 1 else 1 + dst (ht h) i post) else dst (ht h) i B1)"
      using dst_ins [OF agree, of i x] hx by (simp add: c_def)
    show "fwd h' a i = nxt (ht h') i (B1 @ x # post) \<and>
          (i < lv \<longrightarrow> spn h' a i = int (dst (ht h') i (B1 @ x # post)))"
    proof (cases "i < lv")
      case True
      then have p: "pred_at h (hp # pre) i (u i) (r i)" using pr by simp
      have iff: "a = u i \<longleftrightarrow> c"
        using pred_at_iff [OF d sp i p] by (simp add: nxt_None_iff c_def)
      have os: "spn h a i = int (if c then length B1 + dst (ht h) i post else dst (ht h) i B1)"
        using node_ok_spn [OF old i True] by (simp add: dst_append c_def)
      show ?thesis
      proof (cases "a = u i")
        case au: True
        then have c: c using iff by simp
        have "r i = int (length A)" using pred_at_rank [OF d sp] p au by simp
        then have diff: "r 0 - r i = int (length B1)" using r0 lenpre by simp
        have "fwd h' a i = (if i < lvl then Some x else fwd h a i)" using F [of i] au by simp
        moreover have "spn h' a i = (if i < lvl then int (length B1) + 1 else spn h a i + 1)"
          using S [of i] au True diff by simp
        ultimately show ?thesis using c of os nf nd by simp
      next
        case False
        then have c: "\<not> c" using iff by simp
        have "fwd h' a i = fwd h a i" using F [of i] False by simp
        moreover have "spn h' a i = spn h a i" using S [of i] False by simp
        ultimately show ?thesis using c of os nf nd by simp
      qed
    next
      case False
      then have "\<not> i < lvl" using lvl by simp
      then show ?thesis using False F [of i] of nf by simp
    qed
  qed
qed

lemma ins_node_new:
  assumes sh: "shape h hp lv (pre @ post)"
    and pr: "\<forall>j<lv. pred_at h (hp # pre) j (u j) (r j)"
    and rel: "ins_rel h h' hp lv x lvl u r"
  shows "node_ok h' lv x post"
proof -
  have inB: "\<forall>b\<in>set post. b < length h" using shape_all_in [OF sh] by simp
  have agree: "\<forall>b\<in>set post. ht h' b = ht h b" using inB ins_rel_old [OF rel] by blast
  have hx: "ht h' x = lvl" and lvl: "1 \<le> lvl" "lvl \<le> lv" using ins_rel_new [OF rel] by auto
  have d: "distinct (hp # pre)" using shape_distinct [OF sh] by simp
  have lv0: "0 < lv" using sh by (simp add: shape_def)
  have r0: "r 0 = int (length pre)" using pred_at_level0 [OF sh] pr lv0 by blast
  show ?thesis
    unfolding node_ok_def
  proof (intro allI impI)
    fix i
    assume "i < ht h' x"
    then have i: "i < lvl" "i < lv" using hx lvl by simp_all
    then obtain A B where P: "hp # pre = A @ u i # B" and hu: "i < ht h (u i)"
      and low: "\<forall>b\<in>set B. ht h b \<le> i" and ri: "r i = int (length A)"
      using pr by (auto simp: pred_at_def)
    have all: "hp # pre @ post = A @ u i # (B @ post)" using P by simp
    have old: "node_ok h lv (u i) (B @ post)" using shape_slots [OF sh all] .
    have of: "fwd h (u i) i = nxt (ht h) i post"
      using node_ok_fwd [OF old hu] low by (simp add: nxt_append_low)
    have os: "spn h (u i) i = int (length B + dst (ht h) i post)"
      using node_ok_spn [OF old hu i(2)] low by (simp add: dst_append_low)
    have "length (hp # pre) = length (A @ u i # B)" using P by simp
    then have diff: "r 0 - r i = int (length B)" using r0 ri by simp
    have "fwd h' x i = fwd h (u i) i" "spn h' x i = spn h (u i) i - (r 0 - r i)"
      using ins_rel_fwd_new [OF rel i(1)] ins_rel_spn_new [OF rel i(1)] by simp_all
    then show "fwd h' x i = nxt (ht h') i post \<and> (i < lv \<longrightarrow> spn h' x i = int (dst (ht h') i post))"
      using of os diff nxt_cong [OF agree, of i] dst_cong [OF agree, of i] by simp
  qed
qed

lemma ins_node_post:
  assumes sh: "shape h hp lv (pre @ post)"
    and pr: "\<forall>j<lv. pred_at h (hp # pre) j (u j) (r j)"
    and rel: "ins_rel h h' hp lv x lvl u r"
    and sp: "post = A1 @ a # B"
  shows "node_ok h' lv a B"
proof -
  have all: "hp # pre @ post = (hp # pre @ A1) @ a # B" using sp by simp
  have old: "node_ok h lv a B" using shape_slots [OF sh all] .
  have a: "a < length h" "a \<in> set post" using shape_all_in [OF sh, of a] sp by auto
  have inB: "\<forall>b\<in>set B. b < length h" using shape_all_in [OF sh] sp by simp
  have agree: "\<forall>b\<in>set B. ht h' b = ht h b" using inB ins_rel_old [OF rel] by blast
  have hta: "ht h' a = ht h a" and lvl: "lvl \<le> lv" using ins_rel_new [OF rel] ins_rel_old [OF rel a(1)] by auto
  have dall: "distinct (hp # pre @ post)" using shape_distinct [OF sh] .
  have nu: "\<And>j. j < lv \<Longrightarrow> a \<noteq> u j"
  proof -
    fix j assume "j < lv"
    then have "u j \<in> set (hp # pre)" using pr pred_at_in by blast
    with dall a(2) show "a \<noteq> u j" by auto
  qed
  have nu': "\<And>j. j < lvl \<Longrightarrow> a \<noteq> u j" using nu lvl by simp
  have F: "fwd h' a j = fwd h a j" for j
  proof -
    have "\<not> (j < lvl \<and> a = u j)" using nu' by blast
    then show ?thesis using ins_rel_fwd [OF rel a(1), of j] by auto
  qed
  have S: "spn h' a j = spn h a j" for j
  proof -
    have "\<not> (j < lv \<and> a = u j)" using nu by blast
    then show ?thesis using ins_rel_spn [OF rel a(1), of j] by auto
  qed
  show ?thesis
    using old F S hta nxt_cong [OF agree] dst_cong [OF agree] by (simp add: node_ok_def)
qed

lemma ins_slots:
  assumes sh: "shape h hp lv (pre @ post)"
    and pr: "\<forall>j<lv. pred_at h (hp # pre) j (u j) (r j)"
    and rel: "ins_rel h h' hp lv x lvl u r"
  shows "slots_ok h' lv (hp # pre @ x # post)"
  unfolding slots_ok_iff
proof (intro allI impI)
  fix A a B
  assume "hp # pre @ x # post = A @ a # B"
  then have "(hp # pre) @ x # post = A @ a # B" by simp
  then consider B1 where "hp # pre = A @ a # B1" "B = B1 @ x # post"
    | "A = hp # pre" "a = x" "B = post"
    | A1 where "post = A1 @ a # B" "A = (hp # pre) @ x # A1"
    using split_cases [of "hp # pre" x post A a B] by blast
  then show "node_ok h' lv a B"
  proof cases
    case 1
    then show ?thesis using ins_node_pre [OF sh pr rel] by simp
  next
    case 2
    then show ?thesis using ins_node_new [OF sh pr rel] by simp
  next
    case 3
    then show ?thesis using ins_node_post [OF sh pr rel] by simp
  qed
qed

lemma ins_backs:
  assumes sh: "shape h hp lv (pre @ post)"
    and pr: "\<forall>j<lv. pred_at h (hp # pre) j (u j) (r j)"
    and rel: "ins_rel h h' hp lv x lvl u r"
  shows "backs_ok h' None (pre @ x # post)"
proof -
  have lv0: "0 < lv" using sh by (simp add: shape_def)
  have u0: "u 0 = last (hp # pre)" using pred_at_level0 [OF sh] pr lv0 by blast
  have dall: "distinct (hp # pre @ post)" using shape_distinct [OF sh] .
  have inh: "\<forall>b\<in>set (hp # pre @ post). b < length h" using shape_all_in [OF sh] by blast
  have split0: "hp # pre @ post = butlast (hp # pre) @ u 0 # post"
    using u0 by (metis append_Cons append_butlast_last_id append_assoc list.distinct(1) append_Nil)
  have ok0: "node_ok h lv (u 0) post" using shape_slots [OF sh split0] .
  have "u 0 \<in> set (hp # pre)" using u0 by (metis last_in_set list.distinct(1))
  then have "1 \<le> ht h (u 0)" using shape_nodes [OF sh, of "u 0"] sh by (auto simp: shape_def ZSKIPLIST_MAXLEVEL_def)
  then have f0: "fwd h (u 0) 0 = nxt (ht h) 0 post" using node_ok_fwd [OF ok0, of 0] by simp
  have "\<forall>b\<in>set post. 1 \<le> ht h b" using shape_nodes [OF sh] by simp
  then have f0': "fwd h (u 0) 0 = (case post of [] \<Rightarrow> None | b # _ \<Rightarrow> Some b)"
    using f0 nxt_level0 [of post "ht h"] by simp
  have old: "backs_ok h None pre" "backs_ok h (if pre = [] then None else Some (last pre)) post"
    using sh by (simp_all add: shape_def backs_ok_append)
  have B: "\<And>q. q < length h \<Longrightarrow> bwd h' q = (if fwd h (u 0) 0 = Some q then Some x else bwd h q)"
    using ins_rel_bwd [OF rel] .
  have "\<forall>q\<in>set pre. bwd h' q = bwd h q"
  proof
    fix q assume q: "q \<in> set pre"
    then have "fwd h (u 0) 0 \<noteq> Some q" using f0' dall by (cases post) auto
    then show "bwd h' q = bwd h q" using B [of q] inh q by simp
  qed
  then have 1: "backs_ok h' None pre" using old(1) backs_ok_cong by blast
  have 2: "bwd h' x = (if pre = [] then None else Some (last pre))"
  proof (cases "pre = []")
    case True
    then show ?thesis using ins_rel_bwd_new [OF rel] u0 by simp
  next
    case False
    then have "last pre \<in> set pre" by simp
    then have "last pre \<noteq> hp" using dall by auto
    then show ?thesis using ins_rel_bwd_new [OF rel] u0 False by simp
  qed
  have 3: "backs_ok h' (Some x) post"
  proof (cases post)
    case Nil
    then show ?thesis by simp
  next
    case (Cons f post')
    have f: "f < length h" using inh Cons by simp
    have bf: "bwd h' f = Some x" using B [OF f] f0' Cons by simp
    have "\<forall>q\<in>set post'. bwd h' q = bwd h q"
    proof
      fix q assume q: "q \<in> set post'"
      then have "q \<noteq> f" using dall Cons by auto
      then have "fwd h (u 0) 0 \<noteq> Some q" using f0' Cons by simp
      then show "bwd h' q = bwd h q" using B [of q] inh q Cons by simp
    qed
    then have "backs_ok h' (Some f) post' = backs_ok h (Some f) post'" using backs_ok_cong by blast
    moreover have "backs_ok h (Some f) post'" using old(2) Cons by simp
    ultimately show ?thesis using bf Cons by simp
  qed
  show ?thesis using 1 2 3 by (simp add: backs_ok_append)
qed

lemma ins_shape:
  assumes sh: "shape h hp lv (pre @ post)"
    and pr: "\<forall>j<lv. pred_at h (hp # pre) j (u j) (r j)"
    and rel: "ins_rel h h' hp lv x lvl u r"
    and kpre: "\<forall>b\<in>set pre. key_of h b < key_of h' x"
    and kpost: "\<forall>b\<in>set post. key_of h' x < key_of h b"
  shows "shape h' hp lv (pre @ x # post)"
proof -
  note new = ins_rel_new [OF rel]
  have inh: "\<forall>b\<in>set (hp # pre @ post). b < length h" using shape_all_in [OF sh] by blast
  have xn: "x \<notin> set (hp # pre @ post)" using inh new by auto
  have hd: "hp < length h'" "Obj (h' ! hp) = None" "ht h' hp = ZSKIPLIST_MAXLEVEL"
    using sh new ins_rel_old [OF rel, of hp] by (auto simp: shape_def)
  have lv: "1 \<le> lv" "lv \<le> ZSKIPLIST_MAXLEVEL" using sh by (simp_all add: shape_def)
  have dist: "distinct (hp # pre @ x # post)" using shape_distinct [OF sh] xn by auto
  have nodes: "\<forall>a\<in>set (pre @ x # post). a < length h' \<and> Obj (h' ! a) \<noteq> None \<and> 1 \<le> ht h' a \<and> ht h' a \<le> lv"
  proof
    fix a assume "a \<in> set (pre @ x # post)"
    then consider "a = x" | "a \<in> set (pre @ post)" by auto
    then show "a < length h' \<and> Obj (h' ! a) \<noteq> None \<and> 1 \<le> ht h' a \<and> ht h' a \<le> lv"
    proof cases
      case 1
      then show ?thesis using new by auto
    next
      case 2
      then have "a < length h" using inh by simp
      then show ?thesis using shape_nodes [OF sh 2] ins_rel_old [OF rel, of a] new by auto
    qed
  qed
  have keq: "map (key_of h') pre = map (key_of h) pre" "map (key_of h') post = map (key_of h) post"
    using inh ins_rel_old [OF rel] by auto
  have eq: "map (key_of h') (pre @ x # post) = map (key_of h) pre @ key_of h' x # map (key_of h) post"
    using keq by simp
  have "sorted_wrt (<) (map (key_of h) (pre @ post))" using sh by (simp add: shape_def)
  then have "sorted_wrt (<) (map (key_of h) pre @ key_of h' x # map (key_of h) post)"
    using kpre kpost by (auto simp: sorted_wrt_append)
  then have sorted: "sorted_wrt (<) (map (key_of h') (pre @ x # post))"
    unfolding eq .
  show ?thesis
    unfolding shape_def
    using hd lv dist nodes sorted ins_slots [OF sh pr rel] ins_backs [OF sh pr rel] by blast
qed

lemma pred_at_frame: "frame h h' \<Longrightarrow> pred_at h' P j u r = pred_at h P j u r"
  by (simp add: pred_at_def frame_def)

lemma shape_raise:
  assumes sh: "shape h hp lv ns"
    and lv': "lv \<le> lv'" "lv' \<le> ZSKIPLIST_MAXLEVEL"
    and fr: "frame h h'" and f: "fwd h' = fwd h" and b: "bwd h' = bwd h"
    and s: "\<forall>q j. spn h' q j = (if q = hp \<and> lv \<le> j \<and> j < lv' then int (length ns) else spn h q j)"
  shows "shape h' hp lv' ns"
proof -
  have ht: "ht h' = ht h" and len: "length h' = length h" and obj: "\<And>q. Obj (h' ! q) = Obj (h ! q)"
    using fr by (simp_all add: frame_def)
  have key: "key_of h' = key_of h" using frame_key_of [OF fr] .
  have slots: "slots_ok h' lv' (hp # ns)"
    unfolding slots_ok_iff
  proof (intro allI impI)
    fix A a B
    assume sp: "hp # ns = A @ a # B"
    have old: "node_ok h lv a B" using shape_slots [OF sh sp] .
    show "node_ok h' lv' a B"
      unfolding node_ok_def
    proof (intro allI impI conjI)
      fix i assume i: "i < ht h' a"
      then show "fwd h' a i = nxt (ht h') i B" using old f ht by (simp add: node_ok_def)
    next
      fix i assume i: "i < ht h' a" and i': "i < lv'"
      show "spn h' a i = int (dst (ht h') i B)"
      proof (cases "i < lv")
        case True
        then show ?thesis using old s i ht by (simp add: node_ok_def)
      next
        case False
        have "a = hp"
        proof (rule ccontr)
          assume "a \<noteq> hp"
          then have "a \<in> set ns" using sp by (cases A) auto
          then have "ht h a \<le> lv" using shape_nodes [OF sh] by simp
          with i False ht show False by simp
        qed
        then have "A = []" using sp shape_distinct [OF sh] by (cases A) auto
        then have B: "B = ns" using sp by simp
        have "\<forall>b\<in>set ns. ht h b \<le> i" using shape_nodes [OF sh] False by fastforce
        then have "dst (ht h) i ns = length ns" by (rule dst_low)
        then show ?thesis using s \<open>a = hp\<close> False i' B ht by simp
      qed
    qed
  qed
  have "\<forall>a\<in>set ns. ht h a \<le> lv'" using shape_nodes [OF sh] lv' by fastforce
  moreover have "backs_ok h' None ns" using sh backs_ok_cong [of ns h' h None] b by (simp add: shape_def)
  ultimately show ?thesis
    using sh lv' slots unfolding shape_def ht len key by (simp add: obj)
qed

subsection \<open>A store with one node more\<close>

lemma alloc_old:
  assumes "q < length h"
  shows "ht (h @ [n]) q = ht h q" "fwd (h @ [n]) q = fwd h q" "spn (h @ [n]) q = spn h q"
    "bwd (h @ [n]) q = bwd h q" "Obj ((h @ [n]) ! q) = Obj (h ! q)" "entry (h @ [n]) q = entry h q"
    "key_of (h @ [n]) q = key_of h q"
  using assms by (simp_all add: ht_def fwd_def spn_def bwd_def entry_def key_of_def nth_append fun_eq_iff)

lemma alloc_new:
  assumes "x = length h"
  shows "ht (h @ [newZSkipListNode lvl score obj]) x = lvl"
    "j < lvl \<Longrightarrow> fwd (h @ [newZSkipListNode lvl score obj]) x j = None"
    "j < lvl \<Longrightarrow> spn (h @ [newZSkipListNode lvl score obj]) x j = 0"
    "bwd (h @ [newZSkipListNode lvl score obj]) x = None"
    "Obj ((h @ [newZSkipListNode lvl score obj]) ! x) = obj"
    "entry (h @ [newZSkipListNode lvl score (Some e)]) x = (score, e)"
  using assms by (simp_all add: ht_def fwd_def spn_def bwd_def entry_def newZSkipListNode_def)

lemma randLevel_range: "1 \<le> randLevel flips \<and> randLevel flips \<le> ZSKIPLIST_MAXLEVEL"
  by (simp add: randLevel_def Let_def ZSKIPLIST_MAXLEVEL_def)

lemma dropWhile_sorted:
  "sorted_wrt (<) (map f ns) \<Longrightarrow> b \<in> set (dropWhile (\<lambda>b. f b < (k::'a::linorder)) ns) \<Longrightarrow> \<not> f b < k"
proof (induction ns)
  case Nil
  then show ?case by simp
next
  case (Cons a ns)
  show ?case
  proof (cases "f a < k")
    case True
    then show ?thesis using Cons by simp
  next
    case False
    then have "b = a \<or> b \<in> set ns" using Cons.prems(2) by simp
    moreover have "\<forall>c\<in>set ns. f a < f c" using Cons.prems(1) by simp
    ultimately show ?thesis using False by (metis less_trans)
  qed
qed

lemma insert_raise_shape:
  assumes sh: "shape h hp lv ns"
    and len: "len = int (length ns)"
    and lens: "length U = ZSKIPLIST_MAXLEVEL" "length R = ZSKIPLIST_MAXLEVEL"
    and preds: "\<forall>j<lv. \<exists>u. U ! j = Some u \<and> pred_at h (hp # pre) j u (R ! j)"
    and pre: "set pre \<subseteq> set ns"
    and lvl: "lvl \<le> ZSKIPLIST_MAXLEVEL"
  shows "\<exists>h1 U1 R1.
     (if lvl > lv then for_up lv (lvl - lv) (insert_raise hp len) (h, U, R) else Some (h, U, R))
        = Some (h1, U1, R1) \<and>
     frame h h1 \<and> shape h1 hp (max lv lvl) ns \<and>
     length U1 = ZSKIPLIST_MAXLEVEL \<and> length R1 = ZSKIPLIST_MAXLEVEL \<and>
     (\<forall>j<max lv lvl. \<exists>u. U1 ! j = Some u \<and> pred_at h1 (hp # pre) j u (R1 ! j))"
proof (cases "lvl > lv")
  case False
  then have "max lv lvl = lv" by simp
  then show ?thesis using False sh lens preds by simp
next
  case True
  then have m: "max lv lvl = lvl" "lv + (lvl - lv) = lvl" by simp_all
  have hp: "hp < length h" "ht h hp = ZSKIPLIST_MAXLEVEL" using sh by (simp_all add: shape_def)
  obtain h1 U1 R1 where run: "for_up lv (lvl - lv) (insert_raise hp len) (h, U, R) = Some (h1, U1, R1)"
    and fr: "frame h h1" and f: "fwd h1 = fwd h" and b: "bwd h1 = bwd h"
    and s: "\<forall>q j. spn h1 q j = (if q = hp \<and> lv \<le> j \<and> j < lvl then len else spn h q j)"
    and lens1: "length U1 = ZSKIPLIST_MAXLEVEL" "length R1 = ZSKIPLIST_MAXLEVEL"
    and u: "\<forall>j. U1 ! j = (if lv \<le> j \<and> j < lvl then Some hp else U ! j)"
    and r: "\<forall>j. R1 ! j = (if lv \<le> j \<and> j < lvl then 0 else R ! j)"
    using raise_loop [OF hp lens, of lv "lvl - lv" len] lvl m by auto
  have sh1: "shape h1 hp lvl ns"
    using shape_raise [OF sh _ lvl fr f b] s True len by simp
  have "\<exists>u. U1 ! j = Some u \<and> pred_at h1 (hp # pre) j u (R1 ! j)" if j: "j < lvl" for j
  proof (cases "j < lv")
    case True
    then show ?thesis using preds u r pred_at_frame [OF fr] by simp
  next
    case False
    have "\<forall>b\<in>set pre. ht h b \<le> j" using shape_nodes [OF sh] pre False by fastforce
    moreover have "j < ht h hp" using hp j lvl by simp
    ultimately have "pred_at h (hp # pre) j hp 0"
      unfolding pred_at_def by (intro exI [of _ "[]"] exI [of _ pre]) simp
    then show ?thesis using u r False j pred_at_frame [OF fr] by simp
  qed
  then show ?thesis using run fr sh1 lens1 True m by simp
qed

lemma Insert_unfold:
  assumes search: "insert_search (store zsl) score (Uuid obj) (zlevel zsl) (zlevel zsl) (head zsl)
        (replicate ZSKIPLIST_MAXLEVEL None) (replicate ZSKIPLIST_MAXLEVEL 0) = Some (U, R)"
    and raise: "(if randLevel flips > zlevel zsl
        then for_up (zlevel zsl) (randLevel flips - zlevel zsl) (insert_raise (head zsl) (zlength zsl)) (store zsl, U, R)
        else Some (store zsl, U, R)) = Some (h1, U1, R1)"
    and link: "for_up 0 (randLevel flips) (insert_link (length h1) U1 R1)
        (h1 @ [newZSkipListNode (randLevel flips) score (Some obj)]) = Some h3"
    and bump: "for_up (randLevel flips) (max (zlevel zsl) (randLevel flips) - randLevel flips) (insert_bump U1) h3 = Some h4"
    and u0: "arr_get U1 0 = Some u0"
    and e5: "(if u0 \<noteq> Some (head zsl) then set_backward h4 (length h1) u0 else Some h4) = Some h5"
    and slot5: "slot_at h5 (length h1) 0 = Some lx"
    and e6: "(case forward lx of
               Some f \<Rightarrow> do { h' \<leftarrow> set_backward h5 f (Some (length h1)); Some (h', tail zsl) }
             | None \<Rightarrow> Some (h5, Some (length h1))) = Some (h6, tl')"
  shows "Insert flips score obj zsl =
     Some (length h1, zsl\<lparr>zlevel := max (zlevel zsl) (randLevel flips), store := h6, tail := tl',
                           zlength := zlength zsl + 1\<rparr>)"
proof (cases "randLevel flips > zlevel zsl")
  case True
  then have m: "max (zlevel zsl) (randLevel flips) = randLevel flips" by simp
  show ?thesis
    unfolding Insert_def search
    using raise link bump u0 e5 slot5 e6 True
    by (cases "forward lx"; simp add: Let_def m)
next
  case False
  then have m: "max (zlevel zsl) (randLevel flips) = zlevel zsl" by simp
  show ?thesis
    unfolding Insert_def search
    using raise link bump u0 e5 slot5 e6 False
    by (cases "forward lx"; simp add: Let_def m)
qed

lemma cut_last: "u = last (p # P) \<Longrightarrow> p # P @ Q = butlast (p # P) @ u # Q"
proof -
  assume u: "u = last (p # P)"
  have "butlast (p # P) @ u # Q = (butlast (p # P) @ [last (p # P)]) @ Q" using u by simp
  also have "\<dots> = (p # P) @ Q" by (simp only: append_butlast_last_id [OF list.distinct(2)])
  finally show ?thesis by simp
qed

lemma Insert_rep:
  assumes rp: "rep zsl ns"
    and fresh: "(score, Uuid obj) \<notin> set (map (key_of (store zsl)) ns)"
  shows "\<exists>zsl'. Insert flips score obj zsl = Some (length (store zsl), zsl') \<and>
     rep zsl' (takeWhile (\<lambda>b. key_of (store zsl) b < (score, Uuid obj)) ns @ length (store zsl) #
               dropWhile (\<lambda>b. key_of (store zsl) b < (score, Uuid obj)) ns) \<and>
     head zsl' = head zsl \<and> length (store zsl') = Suc (length (store zsl)) \<and>
     entry (store zsl') (length (store zsl)) = (score, obj) \<and>
     (\<forall>q<length (store zsl). entry (store zsl') q = entry (store zsl) q)"
proof -
  let ?h = "store zsl" and ?hp = "head zsl" and ?lv = "zlevel zsl" and ?lvl = "randLevel flips"
  let ?k = "(score, Uuid obj)"
  define pre where "pre = takeWhile (\<lambda>b. key_of ?h b < ?k) ns"
  define post where "post = dropWhile (\<lambda>b. key_of ?h b < ?k) ns"
  have ns_eq: "ns = pre @ post" by (simp add: pre_def post_def)
  define L where "L = max ?lv ?lvl"
  let ?x = "length ?h"
  have sh: "shape ?h ?hp ?lv (pre @ post)" and zl: "zlength zsl = int (length ns)"
    and tl: "tail zsl = (if ns = [] then None else Some (last ns))"
    and tight: "1 < ?lv \<longrightarrow> (\<exists>a\<in>set ns. ht ?h a = ?lv)"
    using rp ns_eq by (simp_all add: rep_def)
  have sh': "shape ?h ?hp ?lv ns" using sh ns_eq by simp
  have lv: "1 \<le> ?lv" "?lv \<le> ZSKIPLIST_MAXLEVEL" and hp: "?hp < ?x" "ht ?h ?hp = ZSKIPLIST_MAXLEVEL"
    using sh by (simp_all add: shape_def)
  have kpre: "\<forall>b\<in>set pre. key_of ?h b < ?k" unfolding pre_def by (auto dest: set_takeWhileD)
  have srt: "sorted_wrt (<) (map (key_of ?h) ns)" using sh' by (simp add: shape_def)
  have kpost: "\<forall>b\<in>set post. \<not> key_of ?h b < ?k" unfolding post_def using dropWhile_sorted [OF srt] by blast
  have kpost': "\<forall>b\<in>set post. ?k < key_of ?h b"
  proof
    fix b assume b: "b \<in> set post"
    then have "b \<in> set ns" using ns_eq by simp
    then have "key_of ?h b \<in> set (map (key_of ?h) ns)" by simp
    then have ne: "key_of ?h b \<noteq> ?k" using fresh by metis
    have nlt: "\<not> key_of ?h b < ?k" using kpost b by blast
    show "?k < key_of ?h b" using nlt ne linorder_less_linear [of ?k "key_of ?h b"] by metis
  qed
  have lvl: "1 \<le> ?lvl" "?lvl \<le> ZSKIPLIST_MAXLEVEL" using randLevel_range by simp_all
  have L: "?lvl \<le> L" "L \<le> ZSKIPLIST_MAXLEVEL" "1 \<le> L" "?lv \<le> L"
    using lv lvl by (simp_all add: L_def)
  \<comment> \<open>the search\<close>
  have "(if ?lv = ?lv then replicate ZSKIPLIST_MAXLEVEL (0::int) ! (?lv - 1)
         else replicate ZSKIPLIST_MAXLEVEL 0 ! ?lv) = int (length ([]::nat list))"
    using lv by simp
  then obtain U R where search: "insert_search ?h score (Uuid obj) ?lv ?lv ?hp
        (replicate ZSKIPLIST_MAXLEVEL None) (replicate ZSKIPLIST_MAXLEVEL 0) = Some (U, R)"
    and lens: "length U = ZSKIPLIST_MAXLEVEL" "length R = ZSKIPLIST_MAXLEVEL"
    and preds: "\<forall>j<?lv. \<exists>u. U ! j = Some u \<and> pred_at ?h (?hp # pre) j u (R ! j)"
    using insert_search_shape [OF sh kpre kpost, of ?lv "[]" ?hp pre
        "replicate ZSKIPLIST_MAXLEVEL None" "replicate ZSKIPLIST_MAXLEVEL 0"] hp lv
    by auto
  \<comment> \<open>new levels\<close>
  have sub: "set pre \<subseteq> set ns" using ns_eq by auto
  obtain h1 U1 R1 where
    raise: "(if ?lvl > ?lv then for_up ?lv (?lvl - ?lv) (insert_raise ?hp (zlength zsl)) (?h, U, R)
             else Some (?h, U, R)) = Some (h1, U1, R1)"
    and fr1: "frame ?h h1" and sh1: "shape h1 ?hp L ns"
    and lens1: "length U1 = ZSKIPLIST_MAXLEVEL" "length R1 = ZSKIPLIST_MAXLEVEL"
    and preds1: "\<forall>j<L. \<exists>u. U1 ! j = Some u \<and> pred_at h1 (?hp # pre) j u (R1 ! j)"
    using insert_raise_shape [OF sh' zl lens preds sub lvl(2), folded L_def] by blast
  define u where "u j = the (U1 ! j)" for j
  define r where "r j = R1 ! j" for j
  have pu: "\<forall>j<L. U1 ! j = Some (u j) \<and> pred_at h1 (?hp # pre) j (u j) (r j)"
    using preds1 by (auto simp: u_def r_def)
  have pp: "\<forall>j<L. pred_at h1 (?hp # pre) j (u j) (r j)" using pu by blast
  have len1: "length h1 = ?x" and ht1: "ht h1 = ht ?h" and ent1: "entry h1 = entry ?h"
    using fr1 by (simp_all add: frame_def)
  have key1: "key_of h1 = key_of ?h" using frame_key_of [OF fr1] .
  have sh1': "shape h1 ?hp L (pre @ post)" using sh1 ns_eq by simp
  have uin: "\<forall>j<L. u j < ?x \<and> j < ht h1 (u j)"
  proof (intro allI impI)
    fix j assume "j < L"
    then have p: "pred_at h1 (?hp # pre) j (u j) (r j)" using pu by simp
    then have "u j \<in> set (?hp # ns)" using pred_at_in [OF p] sub by auto
    then have "u j \<in> set (?hp # pre @ post)" using ns_eq by simp
    then show "u j < ?x \<and> j < ht h1 (u j)" using shape_all_in [OF sh1', of "u j"] pred_at_in [OF p] len1 by simp
  qed
  \<comment> \<open>the new node\<close>
  let ?h2 = "h1 @ [newZSkipListNode ?lvl score (Some obj)]"
  have x2: "?x < length ?h2" "ht ?h2 ?x = ?lvl" using len1 by (simp_all add: alloc_new)
  have jl: "j < L" if "j < ?lvl" for j using that L by simp
  have u2: "\<forall>j<?lvl. U1 ! j = Some (u j) \<and> u j < length ?h2 \<and> j < ht ?h2 (u j) \<and> u j \<noteq> ?x"
  proof (intro allI impI)
    fix j assume "j < ?lvl"
    then have "U1 ! j = Some (u j)" "u j < ?x" "j < ht h1 (u j)" using pu uin jl by blast+
    then show "U1 ! j = Some (u j) \<and> u j < length ?h2 \<and> j < ht ?h2 (u j) \<and> u j \<noteq> ?x"
      using len1 by (simp add: alloc_old)
  qed
  obtain h3 where link: "for_up 0 ?lvl (insert_link ?x U1 R1) ?h2 = Some h3"
    and fr3: "frame ?h2 h3" and b3: "bwd h3 = bwd ?h2"
    and f3: "\<forall>q j. fwd h3 q j = (if j < ?lvl \<and> q = ?x then fwd ?h2 (u j) j
                           else if j < ?lvl \<and> q = u j then Some ?x else fwd ?h2 q j)"
    and s3: "\<forall>q j. spn h3 q j = (if j < ?lvl \<and> q = ?x then spn ?h2 (u j) j - (R1 ! 0 - R1 ! j)
                           else if j < ?lvl \<and> q = u j then (R1 ! 0 - R1 ! j) + 1 else spn ?h2 q j)"
    using link_loop [OF x2 lens1 lvl(2) u2 lvl(1), of ?lvl] by auto
  have len3: "length h3 = Suc ?x" and ht3: "ht h3 = ht ?h2" using fr3 len1 by (simp_all add: frame_def)
  have u3: "\<forall>j. ?lvl \<le> j \<and> j < L \<longrightarrow> U1 ! j = Some (u j) \<and> u j < length h3 \<and> j < ht h3 (u j)"
  proof (intro allI impI)
    fix j assume "?lvl \<le> j \<and> j < L"
    then have "U1 ! j = Some (u j)" "u j < ?x" "j < ht h1 (u j)" using pu uin by blast+
    then show "U1 ! j = Some (u j) \<and> u j < length h3 \<and> j < ht h3 (u j)"
      using len1 len3 ht3 by (simp add: alloc_old)
  qed
  have "?lvl + (L - ?lvl) \<le> L" using L by simp
  then obtain h4 where bump: "for_up ?lvl (L - ?lvl) (insert_bump U1) h3 = Some h4"
    and fr4: "frame h3 h4" and b4: "bwd h4 = bwd h3" and f4: "fwd h4 = fwd h3"
    and s4: "\<forall>q j. spn h4 q j = (if ?lvl \<le> j \<and> j < ?lvl + (L - ?lvl) \<and> q = u j then spn h3 q j + 1 else spn h3 q j)"
    using bump_loop [OF lens1(1) u3 L(2), of "L - ?lvl"] by auto
  have len4: "length h4 = Suc ?x" and ht4: "ht h4 = ht ?h2" using fr4 len3 ht3 by (simp_all add: frame_def)
  \<comment> \<open>the backward links\<close>
  have u0: "U1 ! 0 = Some (u 0)" using pu L by (metis less_le_trans zero_less_one)
  define h5 where "h5 = (if u 0 \<noteq> ?hp then put_bwd h4 ?x (Some (u 0)) else h4)"
  have e5: "(if U1 ! 0 \<noteq> Some ?hp then set_backward h4 ?x (U1 ! 0) else Some h4) = Some h5"
    using u0 len4 by (simp add: h5_def set_backward_in)
  have fr5: "frame h4 h5" and f5: "fwd h5 = fwd h4" and s5: "spn h5 = spn h4"
    and len5: "length h5 = Suc ?x" and ht5: "ht h5 = ht ?h2"
    using len4 ht4 by (simp_all add: h5_def)
  have b5: "\<forall>q. bwd h5 q = (if q = ?x \<and> u 0 \<noteq> ?hp then Some (u 0) else bwd h4 q)"
    using len4 by (simp add: h5_def bwd_put_bwd)
  have lv0: "0 < L" using L by simp
  have u0in: "u 0 < ?x" using uin lv0 by blast
  have fx: "fwd h5 ?x 0 = fwd h1 (u 0) 0"
    using f5 f4 f3 lvl u0in by (simp add: alloc_old len1)
  have slot5: "slot_at h5 ?x 0 = Some \<lparr>forward = fwd h1 (u 0) 0, span = spn h5 ?x 0\<rparr>"
    using slot_at_in [of ?x h5 0] len5 ht5 x2 lvl fx by simp
  define h6 where "h6 = (case fwd h1 (u 0) 0 of Some f \<Rightarrow> put_bwd h5 f (Some ?x) | None \<Rightarrow> h5)"
  define tl' where "tl' = (case fwd h1 (u 0) 0 of Some f \<Rightarrow> tail zsl | None \<Rightarrow> Some ?x)"
  have u0l: "u 0 = last (?hp # pre)" and r0: "r 0 = int (length pre)"
    using pred_at_level0 [OF sh1'] pp lv0 by blast+
  have split0: "?hp # pre @ post = butlast (?hp # pre) @ u 0 # post"
    using u0l by (rule cut_last)
  have ok0: "node_ok h1 L (u 0) post" using shape_slots [OF sh1' split0] .
  have "0 < ht h1 (u 0)" using uin lv0 by blast
  then have f0: "fwd h1 (u 0) 0 = nxt (ht h1) 0 post" using node_ok_fwd [OF ok0, of 0] by simp
  have postsub: "set post \<subseteq> set ns" using ns_eq by auto
  have "\<forall>b\<in>set post. 1 \<le> ht h1 b" using shape_nodes [OF sh1] postsub by blast
  then have f0': "fwd h1 (u 0) 0 = (case post of [] \<Rightarrow> None | b # _ \<Rightarrow> Some b)"
    using f0 nxt_level0 [of post "ht h1"] by simp
  have fin: "\<And>f. fwd h1 (u 0) 0 = Some f \<Longrightarrow> f < ?x"
  proof -
    fix f assume "fwd h1 (u 0) 0 = Some f"
    then have "f \<in> set post" using f0' by (cases post) auto
    then have "f \<in> set ns" using postsub by blast
    then show "f < ?x" using shape_all_in [OF sh1, of f] len1 by simp
  qed
  have e6: "(case fwd h1 (u 0) 0 of
               Some f \<Rightarrow> do { h' \<leftarrow> set_backward h5 f (Some ?x); Some (h', tail zsl) }
             | None \<Rightarrow> Some (h5, Some ?x)) = Some (h6, tl')"
    using fin len5 by (cases "fwd h1 (u 0) 0") (simp_all add: h6_def tl'_def set_backward_in)
  have fr6: "frame h5 h6" and f6: "fwd h6 = fwd h5" and s6: "spn h6 = spn h5"
    and len6: "length h6 = Suc ?x" and ht6: "ht h6 = ht ?h2"
    using len5 ht5 by (cases "fwd h1 (u 0) 0"; simp add: h6_def)+
  have b6: "\<forall>q. bwd h6 q = (if fwd h1 (u 0) 0 = Some q then Some ?x else bwd h5 q)"
    using len5 fin by (cases "fwd h1 (u 0) 0") (auto simp: h6_def bwd_put_bwd)
  \<comment> \<open>the result\<close>
  define zsl' where "zsl' = zsl\<lparr>zlevel := max ?lv ?lvl, store := h6, tail := tl', zlength := zlength zsl + 1\<rparr>"
  have u0': "arr_get U1 0 = Some (Some (u 0))" using u0 lens1 by (simp add: ZSKIPLIST_MAXLEVEL_def)
  have e5': "(if Some (u 0) \<noteq> Some ?hp then set_backward h4 ?x (Some (u 0)) else Some h4) = Some h5"
    using len4 by (simp add: h5_def set_backward_in)
  have e6': "(case forward \<lparr>forward = fwd h1 (u 0) 0, span = spn h5 ?x 0\<rparr> of
               Some f \<Rightarrow> do { h' \<leftarrow> set_backward h5 f (Some ?x); Some (h', tail zsl) }
             | None \<Rightarrow> Some (h5, Some ?x)) = Some (h6, tl')"
    using e6 by simp
  have "Insert flips score obj zsl = Some (length h1, zsl')"
    unfolding zsl'_def
    by (rule Insert_unfold [OF search raise link [folded len1] bump [unfolded L_def] u0'
          e5' [folded len1] slot5 [folded len1] e6' [folded len1]])
  then have run: "Insert flips score obj zsl = Some (?x, zsl')" using len1 by simp
  have fr26: "frame ?h2 h6" using fr3 fr4 fr5 fr6 frame_trans by blast
  have old6: "\<And>q. q < ?x \<Longrightarrow> ht h6 q = ht h1 q \<and> Obj (h6 ! q) = Obj (h1 ! q) \<and> key_of h6 q = key_of h1 q \<and> entry h6 q = entry h1 q"
    using fr26 frame_key_of [OF fr26] len1 by (simp add: frame_def alloc_old)
  have new6: "ht h6 ?x = ?lvl" "Obj (h6 ! ?x) = Some obj" "entry h6 ?x = (score, obj)"
    using fr26 len1 by (simp_all add: frame_def alloc_new)
  have key6: "key_of h6 ?x = ?k" using new6 by (simp add: key_of_def ekey_def)
  have F: "\<forall>q j. q < length h1 \<longrightarrow> fwd h6 q j = (if j < ?lvl \<and> q = u j then Some ?x else fwd h1 q j)"
    using f6 f5 f4 f3 len1 by (simp add: alloc_old)
  have Fx: "\<forall>j<?lvl. fwd h6 ?x j = fwd h1 (u j) j"
    using f6 f5 f4 f3 uin L len1 by (simp add: alloc_old)
  have S: "\<forall>q j. q < length h1 \<longrightarrow>
        spn h6 q j = (if j < L \<and> q = u j then (if j < ?lvl then r 0 - r j + 1 else spn h1 q j + 1)
                      else spn h1 q j)"
    using s6 s5 s4 s3 len1 L by (auto simp: alloc_old r_def)
  have Sx: "\<forall>j<?lvl. spn h6 ?x j = spn h1 (u j) j - (r 0 - r j)"
    using s6 s5 s4 s3 uin L len1 by (simp add: alloc_old r_def)
  have Bw: "\<forall>q<length h1. bwd h6 q = (if fwd h1 (u 0) 0 = Some q then Some ?x else bwd h1 q)"
    using b6 b5 b4 b3 len1 by (simp add: alloc_old)
  have "fwd h1 (u 0) 0 \<noteq> Some ?x" using fin by blast
  then have Bx: "bwd h6 ?x = (if u 0 \<noteq> ?hp then Some (u 0) else None)"
    using b6 b5 b4 b3 len1 by (simp add: alloc_new)
  have rel: "ins_rel h1 h6 ?hp L ?x ?lvl u r"
    unfolding ins_rel_def
    using len1 len6 lvl L old6 new6 F Fx S Sx Bw Bx by simp
  have kp1: "\<forall>b\<in>set pre. key_of h1 b < key_of h6 ?x" using kpre key1 key6 by simp
  have kp2: "\<forall>b\<in>set post. key_of h6 ?x < key_of h1 b" using kpost' key1 key6 by simp
  have sh6: "shape h6 ?hp L (pre @ ?x # post)"
    using ins_shape [OF sh1' pp rel kp1 kp2] .
  have zs: "store zsl' = h6" "head zsl' = ?hp" "zlevel zsl' = L" "tail zsl' = tl'"
    "zlength zsl' = zlength zsl + 1"
    by (simp_all add: zsl'_def L_def)
  have nslen: "length ns = length pre + length post"
    using ns_eq by simp
  have c2: "zlength zsl' = int (length (pre @ ?x # post))" using zs zl nslen by simp
  have c3: "tail zsl' = (if pre @ ?x # post = [] then None else Some (last (pre @ ?x # post)))"
  proof (cases post)
    case Nil
    then have "fwd h1 (u 0) 0 = None" using f0' by simp
    then have "tl' = Some ?x" by (simp add: tl'_def)
    then show ?thesis using zs(4) Nil by simp
  next
    case (Cons f post')
    then have "fwd h1 (u 0) 0 = Some f" using f0' by simp
    then have t: "tl' = tail zsl" by (simp add: tl'_def)
    have "ns \<noteq> []" "last ns = last (f # post')" using ns_eq Cons by simp_all
    then have "tail zsl = Some (last (f # post'))" using tl by simp
    then show ?thesis using zs(4) t Cons by simp
  qed
  have c4: "1 < L \<longrightarrow> (\<exists>a\<in>set (pre @ ?x # post). ht h6 a = L)"
  proof (cases "?lvl > ?lv")
    case True
    then show ?thesis using new6 by (simp add: L_def)
  next
    case False
    then have m: "L = ?lv" by (simp add: L_def)
    show ?thesis
    proof
      assume "1 < L"
      then obtain a where a: "a \<in> set ns" "ht ?h a = ?lv" using tight m by auto
      then have "a < ?x" using shape_all_in [OF sh', of a] by simp
      then have "ht h6 a = ?lv" using old6 [of a] ht1 a by simp
      moreover have "a \<in> set (pre @ ?x # post)" using a(1) ns_eq by auto
      ultimately show "\<exists>a\<in>set (pre @ ?x # post). ht h6 a = L" using m by auto
    qed
  qed
  have rep': "rep zsl' (pre @ ?x # post)"
    unfolding rep_def using sh6 c2 c3 c4 zs by simp
  have "\<forall>q<?x. entry h6 q = entry ?h q" using old6 ent1 by simp
  then show ?thesis using run rep' [unfolded pre_def post_def] zs len6 new6 by simp
qed

section \<open>Delete keeps the representation\<close>

lemma unlink_loop:
  assumes len: "length U = ZSKIPLIST_MAXLEVEL" and lv: "lv \<le> ZSKIPLIST_MAXLEVEL"
    and u: "\<forall>j<lv. U ! j = Some (u j) \<and> u j < length h \<and> j < ht h (u j)"
    and y: "y < length h" "\<forall>j<lv. fwd h (u j) j = Some y \<longrightarrow> j < ht h y"
  shows "n \<le> lv \<Longrightarrow>
    \<exists>h'. for_up 0 n (delete_unlink y U) h = Some h' \<and>
      frame h h' \<and> bwd h' = bwd h \<and>
      (\<forall>q j. fwd h' q j = (if j < n \<and> q = u j \<and> fwd h (u j) j = Some y then fwd h y j else fwd h q j)) \<and>
      (\<forall>q j. spn h' q j =
        (if j < n \<and> q = u j
         then (if fwd h (u j) j = Some y then spn h q j + (spn h y j - 1) else spn h q j - 1)
         else spn h q j))"
proof (induction n)
  case 0
  then show ?case by simp
next
  case (Suc n)
  then obtain h' where run: "for_up 0 n (delete_unlink y U) h = Some h'"
    and fr: "frame h h'" and b: "bwd h' = bwd h"
    and f: "\<forall>q j. fwd h' q j = (if j < n \<and> q = u j \<and> fwd h (u j) j = Some y then fwd h y j else fwd h q j)"
    and s: "\<forall>q j. spn h' q j =
        (if j < n \<and> q = u j
         then (if fwd h (u j) j = Some y then spn h q j + (spn h y j - 1) else spn h q j - 1)
         else spn h q j)"
    by auto
  have n: "n < lv" "n < ZSKIPLIST_MAXLEVEL" using Suc.prems lv by auto
  have un: "U ! n = Some (u n)" "u n < length h" "n < ht h (u n)" using u n by auto
  have fr': "length h' = length h" "ht h' = ht h" using fr by (simp_all add: frame_def)
  have fn: "fwd h' (u n) n = fwd h (u n) n" "spn h' (u n) n = spn h (u n) n"
    "fwd h' y n = fwd h y n" "spn h' y n = spn h y n"
    using f s by simp_all
  show ?case
  proof (cases "fwd h (u n) n = Some y")
    case True
    then have yn: "n < ht h y" using y n by simp
    define h1 where "h1 = put_spn h' (u n) n (spn h (u n) n + (spn h y n - 1))"
    define h2 where "h2 = put_fwd h1 (u n) n (fwd h y n)"
    have body: "delete_unlink y U n h' = Some h2"
      using n un len fr' True yn y(1) fn
      by (simp add: delete_unlink_def ptr_at_in slot_at_in set_forward_in set_span_in h1_def h2_def)
    have f2: "\<forall>q j. fwd h2 q j = (if j < Suc n \<and> q = u j \<and> fwd h (u j) j = Some y then fwd h y j else fwd h q j)"
      using f n un fr' True by (auto simp: h1_def h2_def fwd_put_fwd less_Suc_eq)
    have s2: "\<forall>q j. spn h2 q j =
        (if j < Suc n \<and> q = u j
         then (if fwd h (u j) j = Some y then spn h q j + (spn h y j - 1) else spn h q j - 1)
         else spn h q j)"
      using s n un fr' True by (auto simp: h1_def h2_def spn_put_spn less_Suc_eq)
    have "frame h h2" "bwd h2 = bwd h" using fr b by (simp_all add: h1_def h2_def frame_put')
    then show ?thesis using run body f2 s2 by simp
  next
    case False
    define h1 where "h1 = put_spn h' (u n) n (spn h (u n) n - 1)"
    have body: "delete_unlink y U n h' = Some h1"
      using n un len fr' False fn
      by (simp add: delete_unlink_def ptr_at_in slot_at_in set_span_in h1_def)
    have f2: "\<forall>q j. fwd h1 q j = (if j < Suc n \<and> q = u j \<and> fwd h (u j) j = Some y then fwd h y j else fwd h q j)"
      using f n un fr' False by (auto simp: h1_def less_Suc_eq)
    have s2: "\<forall>q j. spn h1 q j =
        (if j < Suc n \<and> q = u j
         then (if fwd h (u j) j = Some y then spn h q j + (spn h y j - 1) else spn h q j - 1)
         else spn h q j)"
      using s n un fr' False by (auto simp: h1_def spn_put_spn less_Suc_eq)
    have "frame h h1" "bwd h1 = bwd h" using fr b by (simp_all add: h1_def frame_put')
    then show ?thesis using run body f2 s2 by simp
  qed
qed

lemma del_rel_frame: "del_rel h h' lv y u \<Longrightarrow> frame h h'"
  unfolding del_rel_def by blast

lemma del_rel_fwd:
  "del_rel h h' lv y u \<Longrightarrow>
     fwd h' q j = (if j < lv \<and> q = u j \<and> fwd h (u j) j = Some y then fwd h y j else fwd h q j)"
  unfolding del_rel_def by blast

lemma del_rel_spn:
  "del_rel h h' lv y u \<Longrightarrow>
     spn h' q j = (if j < lv \<and> q = u j
         then (if fwd h (u j) j = Some y then spn h q j + (spn h y j - 1) else spn h q j - 1)
         else spn h q j)"
  unfolding del_rel_def by blast

lemma del_rel_bwd:
  "del_rel h h' lv y u \<Longrightarrow> bwd h' q = (if fwd h y 0 = Some q then bwd h y else bwd h q)"
  unfolding del_rel_def by blast

lemma nxt_in: "nxt hs i B = Some g \<Longrightarrow> g \<in> set B"
  using nxt_SomeD [of hs i B g] by auto

lemma del_node_pre:
  assumes sh: "shape h hp lv (pre @ y # post)"
    and pr: "\<forall>j<lv. \<exists>r. pred_at h (hp # pre) j (u j) r"
    and rel: "del_rel h h' lv y u"
    and sp: "hp # pre = A @ a # B1"
  shows "node_ok h' lv a (B1 @ post)"
proof -
  have all: "hp # pre @ y # post = A @ a # (B1 @ y # post)" using sp by simp
  have old: "node_ok h lv a (B1 @ y # post)" using shape_slots [OF sh all] .
  have ally: "hp # pre @ y # post = (hp # pre) @ y # post" by simp
  have oky: "node_ok h lv y post" using shape_slots [OF sh ally] .
  have ht: "ht h' = ht h" using del_rel_frame [OF rel] by (simp add: frame_def)
  have d: "distinct (hp # pre)" and dall: "distinct (hp # pre @ y # post)"
    using shape_distinct [OF sh] by simp_all
  have ynp: "y \<notin> set post" using dall by simp
  have hty: "ht h y \<le> lv" using shape_nodes [OF sh, of y] by simp
  show ?thesis
    unfolding node_ok_def ht
  proof (intro allI impI)
    fix i
    assume i: "i < ht h a"
    define c where "c \<longleftrightarrow> nxt (ht h) i B1 = None"
    have of: "fwd h a i = (if c then (if i < ht h y then Some y else nxt (ht h) i post) else nxt (ht h) i B1)"
      using node_ok_fwd [OF old i] by (simp add: nxt_append nxt_Cons c_def)
    have nf: "nxt (ht h) i (B1 @ post) = (if c then nxt (ht h) i post else nxt (ht h) i B1)"
      by (simp add: nxt_append c_def)
    have nd: "dst (ht h) i (B1 @ post) = (if c then length B1 + dst (ht h) i post else dst (ht h) i B1)"
      by (simp add: dst_append c_def)
    have F: "fwd h' a i = (if i < lv \<and> a = u i \<and> fwd h (u i) i = Some y then fwd h y i else fwd h a i)"
      using del_rel_fwd [OF rel] .
    have S: "spn h' a i = (if i < lv \<and> a = u i
         then (if fwd h (u i) i = Some y then spn h a i + (spn h y i - 1) else spn h a i - 1)
         else spn h a i)"
      using del_rel_spn [OF rel] .
    show "fwd h' a i = nxt (ht h) i (B1 @ post) \<and>
          (i < lv \<longrightarrow> spn h' a i = int (dst (ht h) i (B1 @ post)))"
    proof (cases "i < lv")
      case True
      then obtain r where p: "pred_at h (hp # pre) i (u i) r" using pr by blast
      have iff: "a = u i \<longleftrightarrow> c"
        using pred_at_iff [OF d sp i p] by (simp add: nxt_None_iff c_def)
      have os: "spn h a i = int (if c then length B1 + (if i < ht h y then 1 else 1 + dst (ht h) i post) else dst (ht h) i B1)"
        using node_ok_spn [OF old i True] by (simp add: dst_append dst_Cons c_def)
      show ?thesis
      proof (cases "a = u i")
        case au: True
        then have c: c using iff by simp
        show ?thesis
        proof (cases "i < ht h y")
          case iy: True
          have fy: "fwd h y i = nxt (ht h) i post" using node_ok_fwd [OF oky iy] .
          have sy: "spn h y i = int (dst (ht h) i post)" using node_ok_spn [OF oky iy True] .
          have fa: "fwd h a i = Some y" using of c iy by simp
          have "fwd h' a i = fwd h y i" using F au True fa by simp
          moreover have "spn h' a i = spn h a i + (spn h y i - 1)" using S au True fa by simp
          ultimately show ?thesis using c fy sy os nf nd iy by simp
        next
          case iy: False
          have fa: "fwd h a i = nxt (ht h) i post" using of c iy by simp
          have "fwd h a i \<noteq> Some y" using fa ynp nxt_in [of "ht h" i post y] by auto
          then have "fwd h' a i = fwd h a i" "spn h' a i = spn h a i - 1"
            using F S au True by simp_all
          then show ?thesis using c fa os nf nd iy by simp
        qed
      next
        case False
        then have c: "\<not> c" using iff by simp
        have "fwd h' a i = fwd h a i" using F False by simp
        moreover have "spn h' a i = spn h a i" using S False by simp
        ultimately show ?thesis using c of os nf nd by simp
      qed
    next
      case False
      then have "\<not> i < ht h y" using hty by simp
      then show ?thesis using False F of nf by simp
    qed
  qed
qed

lemma del_node_post:
  assumes sh: "shape h hp lv (pre @ y # post)"
    and pr: "\<forall>j<lv. \<exists>r. pred_at h (hp # pre) j (u j) r"
    and rel: "del_rel h h' lv y u"
    and sp: "post = A1 @ a # B"
  shows "node_ok h' lv a B"
proof -
  have all: "hp # pre @ y # post = (hp # pre @ y # A1) @ a # B" using sp by simp
  have old: "node_ok h lv a B" using shape_slots [OF sh all] .
  have ht: "ht h' = ht h" using del_rel_frame [OF rel] by (simp add: frame_def)
  have dall: "distinct (hp # pre @ y # post)" using shape_distinct [OF sh] .
  have a: "a \<in> set post" using sp by simp
  have nu: "\<And>j. j < lv \<Longrightarrow> a \<noteq> u j"
  proof -
    fix j assume "j < lv"
    then have "u j \<in> set (hp # pre)" using pr pred_at_in by blast
    with dall a show "a \<noteq> u j" by auto
  qed
  have F: "fwd h' a j = fwd h a j" for j
  proof -
    have "\<not> (j < lv \<and> a = u j \<and> fwd h (u j) j = Some y)" using nu by blast
    then show ?thesis using del_rel_fwd [OF rel, of a j] by auto
  qed
  have S: "spn h' a j = spn h a j" for j
  proof -
    have "\<not> (j < lv \<and> a = u j)" using nu by blast
    then show ?thesis using del_rel_spn [OF rel, of a j] by auto
  qed
  show ?thesis using old F S ht by (simp add: node_ok_def)
qed

lemma del_slots:
  assumes sh: "shape h hp lv (pre @ y # post)"
    and pr: "\<forall>j<lv. \<exists>r. pred_at h (hp # pre) j (u j) r"
    and rel: "del_rel h h' lv y u"
  shows "slots_ok h' lv (hp # pre @ post)"
  unfolding slots_ok_iff
proof (intro allI impI)
  fix A a B
  assume "hp # pre @ post = A @ a # B"
  then have "(hp # pre) @ post = A @ a # B" by simp
  then consider B1 where "hp # pre = A @ a # B1" "B = B1 @ post"
    | A1 where "post = A1 @ a # B" "A = (hp # pre) @ A1"
    using split_cases2 [of "hp # pre" post A a B] by blast
  then show "node_ok h' lv a B"
  proof cases
    case 1
    then show ?thesis using del_node_pre [OF sh pr rel] by simp
  next
    case 2
    then show ?thesis using del_node_post [OF sh pr rel] by simp
  qed
qed

lemma del_backs:
  assumes sh: "shape h hp lv (pre @ y # post)"
    and rel: "del_rel h h' lv y u"
  shows "backs_ok h' None (pre @ post)"
proof -
  have dall: "distinct (hp # pre @ y # post)" using shape_distinct [OF sh] .
  have ally: "hp # pre @ y # post = (hp # pre) @ y # post" by simp
  have oky: "node_ok h lv y post" using shape_slots [OF sh ally] .
  have "1 \<le> ht h y" using shape_nodes [OF sh, of y] by simp
  then have f0: "fwd h y 0 = nxt (ht h) 0 post" using node_ok_fwd [OF oky, of 0] by simp
  have "\<forall>b\<in>set post. 1 \<le> ht h b" using shape_nodes [OF sh] by simp
  then have f0': "fwd h y 0 = (case post of [] \<Rightarrow> None | b # _ \<Rightarrow> Some b)"
    using f0 nxt_level0 [of post "ht h"] by simp
  have old: "backs_ok h None pre" "bwd h y = (if pre = [] then None else Some (last pre))"
    "backs_ok h (Some y) post"
    using sh by (simp_all add: shape_def backs_ok_append)
  have B: "\<And>q. bwd h' q = (if fwd h y 0 = Some q then bwd h y else bwd h q)"
    using del_rel_bwd [OF rel] .
  have "\<forall>q\<in>set pre. bwd h' q = bwd h q"
  proof
    fix q assume q: "q \<in> set pre"
    then have "fwd h y 0 \<noteq> Some q" using f0' dall by (cases post) auto
    then show "bwd h' q = bwd h q" using B [of q] by simp
  qed
  then have 1: "backs_ok h' None pre" using old(1) backs_ok_cong by blast
  have 2: "backs_ok h' (if pre = [] then None else Some (last pre)) post"
  proof (cases post)
    case Nil
    then show ?thesis by simp
  next
    case (Cons f post')
    have bf: "bwd h' f = (if pre = [] then None else Some (last pre))"
      using B [of f] f0' Cons old(2) by simp
    have "\<forall>q\<in>set post'. bwd h' q = bwd h q"
    proof
      fix q assume q: "q \<in> set post'"
      then have "q \<noteq> f" using dall Cons by auto
      then have "fwd h y 0 \<noteq> Some q" using f0' Cons by simp
      then show "bwd h' q = bwd h q" using B [of q] by simp
    qed
    then have "backs_ok h' (Some f) post' = backs_ok h (Some f) post'" using backs_ok_cong by blast
    moreover have "backs_ok h (Some f) post'" using old(3) Cons by simp
    ultimately show ?thesis using bf Cons by simp
  qed
  show ?thesis using 1 2 by (simp add: backs_ok_append)
qed

lemma del_shape:
  assumes sh: "shape h hp lv (pre @ y # post)"
    and pr: "\<forall>j<lv. \<exists>r. pred_at h (hp # pre) j (u j) r"
    and rel: "del_rel h h' lv y u"
  shows "shape h' hp lv (pre @ post)"
proof -
  have fr: "frame h h'" using del_rel_frame [OF rel] .
  have ht: "ht h' = ht h" and len: "length h' = length h" and obj: "\<And>q. Obj (h' ! q) = Obj (h ! q)"
    using fr by (simp_all add: frame_def)
  have key: "key_of h' = key_of h" using frame_key_of [OF fr] .
  have "sorted_wrt (<) (map (key_of h) (pre @ y # post))" using sh by (simp add: shape_def)
  then have srt: "sorted_wrt (<) (map (key_of h) (pre @ post))" by (auto simp: sorted_wrt_append)
  have "distinct (hp # pre @ post)" using shape_distinct [OF sh] by simp
  moreover have "\<forall>a\<in>set (pre @ post). a < length h \<and> Obj (h ! a) \<noteq> None \<and> 1 \<le> ht h a \<and> ht h a \<le> lv"
    using shape_nodes [OF sh] by auto
  ultimately show ?thesis
    unfolding shape_def ht len key
    using sh srt del_slots [OF sh pr rel] del_backs [OF sh rel] ht
    by (simp add: shape_def obj)
qed

lemma shrink_result:
  assumes hp: "hp < length h" "ht h hp = ZSKIPLIST_MAXLEVEL"
  shows "lv \<le> ZSKIPLIST_MAXLEVEL \<Longrightarrow>
    \<exists>lv'. delete_shrink h hp lv = Some lv' \<and> lv' \<le> lv \<and> (1 \<le> lv \<longrightarrow> 1 \<le> lv') \<and>
      (\<forall>i. lv' \<le> i \<and> i < lv \<longrightarrow> fwd h hp i = None) \<and>
      (1 < lv' \<longrightarrow> fwd h hp (lv' - 1) \<noteq> None)"
proof (induction lv)
  case 0
  then show ?case by simp
next
  case (Suc n)
  show ?case
  proof (cases n)
    case 0
    then show ?thesis by simp
  next
    case (Suc m)
    have in_range: "Suc m < ht h hp" using Suc.prems Suc hp by simp
    have sl: "slot_at h hp (Suc m) = Some \<lparr>forward = fwd h hp (Suc m), span = spn h hp (Suc m)\<rparr>"
      using slot_at_in [OF hp(1) in_range] .
    show ?thesis
    proof (cases "fwd h hp (Suc m) = None")
      case True
      obtain lv' where r: "delete_shrink h hp n = Some lv'" "lv' \<le> n" "1 \<le> n \<longrightarrow> 1 \<le> lv'"
        "\<forall>i. lv' \<le> i \<and> i < n \<longrightarrow> fwd h hp i = None" "1 < lv' \<longrightarrow> fwd h hp (lv' - 1) \<noteq> None"
        using Suc.IH Suc.prems by auto
      have "delete_shrink h hp (Suc n) = Some lv'" using r(1) sl True Suc by simp
      moreover have "\<forall>i. lv' \<le> i \<and> i < Suc n \<longrightarrow> fwd h hp i = None"
        using r(4) True Suc by (auto simp: less_Suc_eq)
      ultimately show ?thesis using r Suc by auto
    next
      case False
      then obtain g where g: "fwd h hp (Suc m) = Some g" by auto
      then have r: "delete_shrink h hp (Suc n) = Some (Suc n)" using sl Suc by simp
      have "\<forall>i. Suc n \<le> i \<and> i < Suc n \<longrightarrow> fwd h hp i = None" by auto
      moreover have "fwd h hp (Suc n - 1) \<noteq> None" using g Suc by simp
      ultimately show ?thesis using r by blast
    qed
  qed
qed

lemma node_ok_mono: "lv' \<le> lv \<Longrightarrow> node_ok h lv a B \<Longrightarrow> node_ok h lv' a B"
  unfolding node_ok_def by auto

lemma slots_ok_mono: "lv' \<le> lv \<Longrightarrow> slots_ok h lv xs \<Longrightarrow> slots_ok h lv' xs"
  unfolding slots_ok_iff using node_ok_mono by blast

lemma shapeI:
  "hp < length h \<Longrightarrow> Obj (h ! hp) = None \<Longrightarrow> ht h hp = ZSKIPLIST_MAXLEVEL \<Longrightarrow>
   1 \<le> lv \<Longrightarrow> lv \<le> ZSKIPLIST_MAXLEVEL \<Longrightarrow> distinct (hp # ns) \<Longrightarrow>
   (\<forall>a\<in>set ns. a < length h \<and> Obj (h ! a) \<noteq> None \<and> 1 \<le> ht h a \<and> ht h a \<le> lv) \<Longrightarrow>
   sorted_wrt (<) (map (key_of h) ns) \<Longrightarrow> slots_ok h lv (hp # ns) \<Longrightarrow> backs_ok h None ns \<Longrightarrow>
   shape h hp lv ns"
  unfolding shape_def by (intro conjI)

lemma shape_shrink:
  assumes sh: "shape h hp lv ns"
    and lv': "lv' \<le> lv" "1 \<le> lv'"
    and none: "\<forall>i. lv' \<le> i \<and> i < lv \<longrightarrow> fwd h hp i = None"
  shows "shape h hp lv' ns"
proof -
  have hd0: "hp # ns = [] @ hp # ns" by simp
  have okh: "node_ok h lv hp ns" using shape_slots [OF sh hd0] .
  have hth: "ht h hp = ZSKIPLIST_MAXLEVEL" "lv \<le> ZSKIPLIST_MAXLEVEL" using sh by (simp_all add: shape_def)
  have low: "\<forall>a\<in>set ns. ht h a \<le> lv'"
  proof (rule ccontr)
    assume "\<not> (\<forall>a\<in>set ns. ht h a \<le> lv')"
    then obtain a where a: "a \<in> set ns" "lv' < ht h a" by auto
    have ale: "ht h a \<le> lv" using shape_nodes [OF sh a(1)] by simp
    define i where "i = ht h a - 1"
    have i: "lv' \<le> i" "i < lv" "i < ht h a" "i < ht h hp" using a ale hth by (simp_all add: i_def)
    have "fwd h hp i = None" using none i by simp
    then have "nxt (ht h) i ns = None" using node_ok_fwd [OF okh i(4)] by simp
    then have "ht h a \<le> i" using a(1) by (simp add: nxt_None_iff)
    with i(3) show False by simp
  qed
  have "slots_ok h lv (hp # ns)" using sh unfolding shape_def by blast
  then have sl: "slots_ok h lv' (hp # ns)" by (rule slots_ok_mono [OF lv'(1)])
  have nodes: "\<forall>a\<in>set ns. a < length h \<and> Obj (h ! a) \<noteq> None \<and> 1 \<le> ht h a \<and> ht h a \<le> lv'"
    using shape_nodes [OF sh] low by blast
  have rest: "hp < length h" "Obj (h ! hp) = None" "distinct (hp # ns)"
    "sorted_wrt (<) (map (key_of h) ns)" "backs_ok h None ns"
    using sh unfolding shape_def by blast+
  have "lv' \<le> ZSKIPLIST_MAXLEVEL" using lv' hth by simp
  then show ?thesis using rest hth(1) lv'(2) nodes sl by (intro shapeI)
qed

lemma shape_tight:
  assumes sh: "shape h hp lv ns" and t: "1 < lv" "fwd h hp (lv - 1) \<noteq> None"
  shows "\<exists>a\<in>set ns. ht h a = lv"
proof -
  have hd0: "hp # ns = [] @ hp # ns" by simp
  have okh: "node_ok h lv hp ns" using shape_slots [OF sh hd0] .
  have "ht h hp = ZSKIPLIST_MAXLEVEL" "lv \<le> ZSKIPLIST_MAXLEVEL" using sh by (simp_all add: shape_def)
  then have "lv - 1 < ht h hp" using t by simp
  then have "nxt (ht h) (lv - 1) ns \<noteq> None" using node_ok_fwd [OF okh] t by simp
  then obtain a where "nxt (ht h) (lv - 1) ns = Some a" by auto
  then have "a \<in> set ns" "lv - 1 < ht h a" using nxt_SomeD [of "ht h" "lv - 1" ns a] by auto
  moreover have "ht h a \<le> lv" using shape_nodes [OF sh, of a] calculation by simp
  ultimately show ?thesis using t by (intro bexI [of _ a]) auto
qed

lemma Delete_unfold:
  assumes search: "delete_search (store zsl) score (Uuid obj) (zlevel zsl) (head zsl)
        (replicate ZSKIPLIST_MAXLEVEL None) = Some (x, U)"
    and slot: "slot_at (store zsl) x 0 = Some l" "forward l = Some y"
    and node: "arr_get (store zsl) y = Some n" "score = Score n" "Obj n = Some e" "Uuid e = Uuid obj"
    and loop: "for_up 0 (zlevel zsl) (delete_unlink y U) (store zsl) = Some h1"
    and sloty: "slot_at h1 y 0 = Some ly" "arr_get h1 y = Some nd"
    and e2: "(case forward ly of
               Some f \<Rightarrow> do { h' \<leftarrow> set_backward h1 f (backward nd); Some (h', tail zsl) }
             | None \<Rightarrow> Some (h1, backward nd)) = Some (h2, tl')"
    and shr: "delete_shrink h2 (head zsl) (zlevel zsl) = Some lv'"
  shows "Delete score obj zsl =
     Some (Some y, zsl\<lparr>store := h2, tail := tl', zlevel := lv', zlength := zlength zsl - 1\<rparr>)"
  unfolding Delete_def deleteNode_def search
  using slot node loop sloty e2 shr
  by (cases "forward ly"; simp)

lemma Delete_unfold_none:
  assumes search: "delete_search (store zsl) score (Uuid obj) (zlevel zsl) (head zsl)
        (replicate ZSKIPLIST_MAXLEVEL None) = Some (x, U)"
    and slot: "slot_at (store zsl) x 0 = Some l"
    and miss: "forward l = None \<or>
       (\<exists>y n. forward l = Some y \<and> arr_get (store zsl) y = Some n \<and>
          (score \<noteq> Score n \<or> (\<exists>e. Obj n = Some e \<and> Uuid e \<noteq> Uuid obj)))"
  shows "Delete score obj zsl = Some (None, zsl)"
  unfolding Delete_def search
  using slot miss by auto

lemma last_slot:
  assumes sh: "shape h hp lv (pre @ post)"
  shows "slot_at h (last (hp # pre)) 0 =
     Some \<lparr>forward = (case post of [] \<Rightarrow> None | b # _ \<Rightarrow> Some b), span = spn h (last (hp # pre)) 0\<rparr>"
proof -
  let ?x = "last (hp # pre)"
  have split0: "hp # pre @ post = butlast (hp # pre) @ ?x # post" by (rule cut_last) simp
  have ok0: "node_ok h lv ?x post" using shape_slots [OF sh split0] .
  have "?x \<in> set (hp # pre)" by (rule last_in_set) simp
  then have xin: "?x \<in> set (hp # pre @ post)" by auto
  have x: "?x < length h" using shape_all_in [OF sh xin] .
  have "0 < ht h ?x"
  proof (cases "?x = hp")
    case True
    then show ?thesis using sh by (simp add: shape_def ZSKIPLIST_MAXLEVEL_def)
  next
    case False
    then have "?x \<in> set (pre @ post)" using xin by auto
    then show ?thesis using shape_nodes [OF sh, of ?x] by simp
  qed
  then have h0: "0 < ht h ?x" .
  have f0: "fwd h ?x 0 = nxt (ht h) 0 post" using node_ok_fwd [OF ok0 h0] .
  have "\<forall>b\<in>set post. 1 \<le> ht h b" using shape_nodes [OF sh] by simp
  then have "fwd h ?x 0 = (case post of [] \<Rightarrow> None | b # _ \<Rightarrow> Some b)"
    using f0 nxt_level0 [of post "ht h"] by simp
  then show ?thesis using slot_at_in [OF x h0] by simp
qed

lemma delete_search_rep:
  assumes sh: "shape h hp lv (pre @ post)"
    and pre: "\<forall>b\<in>set pre. key_of h b < (score, uid)"
    and post: "\<forall>b\<in>set post. \<not> key_of h b < (score, uid)"
  shows "\<exists>U u. delete_search h score uid lv hp (replicate ZSKIPLIST_MAXLEVEL None) = Some (last (hp # pre), U) \<and>
     length U = ZSKIPLIST_MAXLEVEL \<and>
     (\<forall>j<lv. U ! j = Some (u j) \<and> u j < length h \<and> j < ht h (u j)) \<and>
     (\<forall>j<lv. \<exists>r. pred_at h (hp # pre) j (u j) r)"
proof -
  have lv: "1 \<le> lv" "lv \<le> ZSKIPLIST_MAXLEVEL" and hp: "ht h hp = ZSKIPLIST_MAXLEVEL"
    using sh by (simp_all add: shape_def)
  have c: "lv \<le> lv" "hp # pre = [] @ hp # pre" "lv \<le> ht h hp"
    "length (replicate ZSKIPLIST_MAXLEVEL (None::nat option)) = ZSKIPLIST_MAXLEVEL" "lv = 0 \<longrightarrow> pre = []"
    using lv hp by simp_all
  obtain U where s: "delete_search h score uid lv hp (replicate ZSKIPLIST_MAXLEVEL None) = Some (last (hp # pre), U)"
    and len: "length U = ZSKIPLIST_MAXLEVEL"
    and below: "\<forall>j<lv. \<exists>u A B. U ! j = Some u \<and> hp # pre = A @ u # B \<and> j < ht h u \<and> (\<forall>b\<in>set B. ht h b \<le> j)"
    using delete_search_shape [OF sh pre post c] by blast
  define u where "u j = the (U ! j)" for j
  have pj: "U ! j = Some (u j) \<and> u j < length h \<and> j < ht h (u j) \<and> (\<exists>r. pred_at h (hp # pre) j (u j) r)"
    if jl: "j < lv" for j
  proof -
    obtain v A B where v: "U ! j = Some v" "hp # pre = A @ v # B" "j < ht h v" "\<forall>b\<in>set B. ht h b \<le> j"
      using below jl by blast
    have uv: "u j = v" using v(1) by (simp add: u_def)
    have "v \<in> set (hp # pre)" using v(2) by simp
    then have "v \<in> set (hp # pre @ post)" by auto
    then have "v < length h" using shape_all_in [OF sh] by blast
    moreover have "pred_at h (hp # pre) j v (int (length A))"
      unfolding pred_at_def using v by blast
    ultimately show ?thesis using v uv by blast
  qed
  show ?thesis using s len pj by blast
qed

lemma key_of_eq:
  "Obj (h ! y) = Some e \<Longrightarrow> key_of h y = (score, uid) \<longleftrightarrow> Score (h ! y) = score \<and> Uuid e = uid"
  by (simp add: key_of_def ekey_def entry_def)

lemma Delete_missing:
  assumes rp: "rep zsl (pre @ post)"
    and kpre: "\<forall>b\<in>set pre. key_of (store zsl) b < (score, Uuid obj)"
    and kpost: "\<forall>b\<in>set post. (score, Uuid obj) < key_of (store zsl) b"
  shows "Delete score obj zsl = Some (None, zsl)"
proof -
  let ?h = "store zsl" and ?hp = "head zsl" and ?lv = "zlevel zsl"
  have sh: "shape ?h ?hp ?lv (pre @ post)" using rp by (simp add: rep_def)
  have kpost': "\<forall>b\<in>set post. \<not> key_of ?h b < (score, Uuid obj)"
    using kpost by (meson less_asym)
  obtain U u where search: "delete_search ?h score (Uuid obj) ?lv ?hp (replicate ZSKIPLIST_MAXLEVEL None)
        = Some (last (?hp # pre), U)"
    using delete_search_rep [OF sh kpre kpost'] by blast
  note slot = last_slot [OF sh]
  show ?thesis
  proof (cases post)
    case Nil
    show ?thesis by (rule Delete_unfold_none [OF search slot]) (simp add: Nil)
  next
    case (Cons y post')
    have y: "y \<in> set (pre @ post)" using Cons by simp
    have yl: "y < length ?h" and "Obj (?h ! y) \<noteq> None" using shape_nodes [OF sh y] by simp_all
    then obtain e where e: "Obj (?h ! y) = Some e" by auto
    have "key_of ?h y \<noteq> (score, Uuid obj)" using kpost Cons by (metis less_irrefl list.set_intros(1))
    then have ne: "score \<noteq> Score (?h ! y) \<or> Uuid e \<noteq> Uuid obj" using key_of_eq [OF e] by metis
    let ?l = "\<lparr>forward = (case post of [] \<Rightarrow> None | b # _ \<Rightarrow> Some b), span = spn ?h (last (?hp # pre)) 0\<rparr>"
    have "forward ?l = Some y \<and> arr_get ?h y = Some (?h ! y) \<and>
          (score \<noteq> Score (?h ! y) \<or> (\<exists>e. Obj (?h ! y) = Some e \<and> Uuid e \<noteq> Uuid obj))"
      using Cons yl e ne by simp
    then have "forward ?l = None \<or> (\<exists>y n. forward ?l = Some y \<and> arr_get ?h y = Some n \<and>
          (score \<noteq> Score n \<or> (\<exists>e. Obj n = Some e \<and> Uuid e \<noteq> Uuid obj)))"
      by blast
    then show ?thesis by (rule Delete_unfold_none [OF search slot])
  qed
qed

lemma Delete_found:
  assumes rp: "rep zsl (pre @ y # post)"
    and kpre: "\<forall>b\<in>set pre. key_of (store zsl) b < (score, Uuid obj)"
    and ky: "key_of (store zsl) y = (score, Uuid obj)"
  shows "\<exists>zsl'. Delete score obj zsl = Some (Some y, zsl') \<and> rep zsl' (pre @ post) \<and>
     head zsl' = head zsl \<and> frame (store zsl) (store zsl')"
proof -
  let ?h = "store zsl" and ?hp = "head zsl" and ?lv = "zlevel zsl"
  have sh: "shape ?h ?hp ?lv (pre @ y # post)" and zl: "zlength zsl = int (length (pre @ y # post))"
    and tl: "tail zsl = Some (last (pre @ y # post))"
    using rp by (simp_all add: rep_def)
  have lv: "1 \<le> ?lv" "?lv \<le> ZSKIPLIST_MAXLEVEL" and hp: "?hp < length ?h" "ht ?h ?hp = ZSKIPLIST_MAXLEVEL"
    using sh by (simp_all add: shape_def)
  have dall: "distinct (?hp # pre @ y # post)" using shape_distinct [OF sh] .
  have srt: "sorted_wrt (<) (map (key_of ?h) (pre @ y # post))" using sh by (simp add: shape_def)
  then have ypost: "\<forall>b\<in>set post. key_of ?h y < key_of ?h b" by (simp add: sorted_wrt_append)
  have kpost': "\<forall>b\<in>set (y # post). \<not> key_of ?h b < (score, Uuid obj)"
  proof
    fix b assume "b \<in> set (y # post)"
    then consider "b = y" | "b \<in> set post" by auto
    then show "\<not> key_of ?h b < (score, Uuid obj)"
    proof cases
      case 1
      then show ?thesis using ky by simp
    next
      case 2
      then have "key_of ?h y < key_of ?h b" using ypost by blast
      then have "(score, Uuid obj) < key_of ?h b" unfolding ky .
      then show ?thesis by (simp add: not_less less_imp_le)
    qed
  qed
  obtain U u where search: "delete_search ?h score (Uuid obj) ?lv ?hp (replicate ZSKIPLIST_MAXLEVEL None)
        = Some (last (?hp # pre), U)"
    and len: "length U = ZSKIPLIST_MAXLEVEL"
    and uu: "\<forall>j<?lv. U ! j = Some (u j) \<and> u j < length ?h \<and> j < ht ?h (u j)"
    and pr: "\<forall>j<?lv. \<exists>r. pred_at ?h (?hp # pre) j (u j) r"
    using delete_search_rep [OF sh kpre kpost'] by blast
  have slot: "slot_at ?h (last (?hp # pre)) 0 =
      Some \<lparr>forward = Some y, span = spn ?h (last (?hp # pre)) 0\<rparr>"
    using last_slot [OF sh] by simp
  have yin: "y \<in> set (pre @ y # post)" by simp
  have yl: "y < length ?h" and yo: "Obj (?h ! y) \<noteq> None" and yh: "1 \<le> ht ?h y"
    using shape_nodes [OF sh yin] by simp_all
  obtain e where e: "Obj (?h ! y) = Some e" using yo by auto
  have sc: "score = Score (?h ! y)" and id: "Uuid e = Uuid obj"
    using key_of_eq [OF e, of score "Uuid obj"] ky by simp_all
  have node: "arr_get ?h y = Some (?h ! y)" using yl by simp
  have ally: "?hp # pre @ y # post = (?hp # pre) @ y # post" by simp
  have oky: "node_ok ?h ?lv y post" using shape_slots [OF sh ally] .
  have ynu: "y \<noteq> u j" if jl: "j < ?lv" for j
  proof -
    obtain r where "pred_at ?h (?hp # pre) j (u j) r" using pr jl by blast
    then have "u j \<in> set (?hp # pre)" using pred_at_in by blast
    then show ?thesis using dall by auto
  qed
  have ycond: "\<forall>j<?lv. fwd ?h (u j) j = Some y \<longrightarrow> j < ht ?h y"
  proof (intro allI impI)
    fix j assume jl: "j < ?lv" and f: "fwd ?h (u j) j = Some y"
    obtain r where "pred_at ?h (?hp # pre) j (u j) r" using pr jl by blast
    then obtain A B where P: "?hp # pre = A @ u j # B" and hu: "j < ht ?h (u j)"
      and low: "\<forall>b\<in>set B. ht ?h b \<le> j"
      by (auto simp: pred_at_def)
    have all: "?hp # pre @ y # post = A @ u j # (B @ y # post)" using P by simp
    have "node_ok ?h ?lv (u j) (B @ y # post)" using shape_slots [OF sh all] .
    then have "fwd ?h (u j) j = nxt (ht ?h) j (y # post)"
      using node_ok_fwd [of ?h ?lv "u j" "B @ y # post" j] hu low by (simp add: nxt_append_low)
    then have n: "nxt (ht ?h) j (y # post) = Some y" using f by simp
    show "j < ht ?h y"
    proof (rule ccontr)
      assume "\<not> j < ht ?h y"
      then have "nxt (ht ?h) j post = Some y" using n by (simp add: nxt_Cons)
      then have "y \<in> set post" by (rule nxt_in)
      then show False using dall by simp
    qed
  qed
  obtain h1 where loop: "for_up 0 ?lv (delete_unlink y U) ?h = Some h1"
    and fr1: "frame ?h h1" and b1: "bwd h1 = bwd ?h"
    and f1: "\<forall>q j. fwd h1 q j = (if j < ?lv \<and> q = u j \<and> fwd ?h (u j) j = Some y then fwd ?h y j else fwd ?h q j)"
    and s1: "\<forall>q j. spn h1 q j =
        (if j < ?lv \<and> q = u j
         then (if fwd ?h (u j) j = Some y then spn ?h q j + (spn ?h y j - 1) else spn ?h q j - 1)
         else spn ?h q j)"
    using unlink_loop [OF len lv(2) uu yl ycond, of ?lv] by auto
  have len1: "length h1 = length ?h" and ht1: "ht h1 = ht ?h" using fr1 by (simp_all add: frame_def)
  have fy1: "fwd h1 y 0 = fwd ?h y 0"
  proof -
    have "\<not> (0 < ?lv \<and> y = u 0 \<and> fwd ?h (u 0) 0 = Some y)" using ynu [of 0] by blast
    then show ?thesis using f1 by auto
  qed
  have sloty: "slot_at h1 y 0 = Some \<lparr>forward = fwd ?h y 0, span = spn h1 y 0\<rparr>"
    using slot_at_in [of y h1 0] yl yh len1 ht1 fy1 by simp
  have nodey: "arr_get h1 y = Some (h1 ! y)" using yl len1 by simp
  have by1: "backward (h1 ! y) = bwd ?h y" using b1 by (simp add: bwd_def fun_eq_iff)
  have f0: "fwd ?h y 0 = nxt (ht ?h) 0 post" using node_ok_fwd [OF oky, of 0] yh by simp
  have "\<forall>b\<in>set post. 1 \<le> ht ?h b" using shape_nodes [OF sh] by simp
  then have f0': "fwd ?h y 0 = (case post of [] \<Rightarrow> None | b # _ \<Rightarrow> Some b)"
    using f0 nxt_level0 [of post "ht ?h"] by simp
  have fin: "\<And>f. fwd ?h y 0 = Some f \<Longrightarrow> f < length h1"
  proof -
    fix f assume "fwd ?h y 0 = Some f"
    then have "f \<in> set post" using f0' by (cases post) auto
    then have "f \<in> set (?hp # pre @ y # post)" by simp
    then show "f < length h1" using shape_all_in [OF sh] len1 by metis
  qed
  define h2 where "h2 = (case fwd ?h y 0 of Some f \<Rightarrow> put_bwd h1 f (bwd ?h y) | None \<Rightarrow> h1)"
  define tl' where "tl' = (case fwd ?h y 0 of Some f \<Rightarrow> tail zsl | None \<Rightarrow> bwd ?h y)"
  have e2: "(case forward \<lparr>forward = fwd ?h y 0, span = spn h1 y 0\<rparr> of
               Some f \<Rightarrow> do { h' \<leftarrow> set_backward h1 f (backward (h1 ! y)); Some (h', tail zsl) }
             | None \<Rightarrow> Some (h1, backward (h1 ! y))) = Some (h2, tl')"
    using fin by1 by (cases "fwd ?h y 0") (simp_all add: h2_def tl'_def set_backward_in)
  have fr2: "frame ?h h2" and f2: "fwd h2 = fwd h1" and s2: "spn h2 = spn h1"
    using fr1 by (cases "fwd ?h y 0"; simp add: h2_def frame_put')+
  have b2: "\<forall>q. bwd h2 q = (if fwd ?h y 0 = Some q then bwd ?h y else bwd ?h q)"
    using fin b1 by (cases "fwd ?h y 0") (auto simp: h2_def bwd_put_bwd)
  have rel: "del_rel ?h h2 ?lv y u"
    unfolding del_rel_def using fr2 f2 s2 f1 s1 b2 by simp
  have sh2: "shape h2 ?hp ?lv (pre @ post)" using del_shape [OF sh pr rel] .
  have hp2: "?hp < length h2" "ht h2 ?hp = ZSKIPLIST_MAXLEVEL" using fr2 hp by (simp_all add: frame_def)
  obtain lv' where shr: "delete_shrink h2 ?hp ?lv = Some lv'" and lv': "lv' \<le> ?lv" "1 \<le> lv'"
    and none: "\<forall>i. lv' \<le> i \<and> i < ?lv \<longrightarrow> fwd h2 ?hp i = None"
    and top: "1 < lv' \<longrightarrow> fwd h2 ?hp (lv' - 1) \<noteq> None"
    using shrink_result [OF hp2 lv(2)] lv(1) by blast
  have sh3: "shape h2 ?hp lv' (pre @ post)" using shape_shrink [OF sh2 lv' none] .
  have tight: "1 < lv' \<longrightarrow> (\<exists>a\<in>set (pre @ post). ht h2 a = lv')"
    using shape_tight [OF sh3] top by blast
  define zsl' where "zsl' = zsl\<lparr>store := h2, tail := tl', zlevel := lv', zlength := zlength zsl - 1\<rparr>"
  have run: "Delete score obj zsl = Some (Some y, zsl')"
    unfolding zsl'_def
    by (rule Delete_unfold [OF search slot _ node sc e id loop sloty nodey e2 shr]) simp
  have zs: "store zsl' = h2" "head zsl' = ?hp" "zlevel zsl' = lv'" "tail zsl' = tl'"
    "zlength zsl' = zlength zsl - 1"
    by (simp_all add: zsl'_def)
  have c2: "zlength zsl' = int (length (pre @ post))" using zs zl by simp
  have oldb: "bwd ?h y = (if pre = [] then None else Some (last pre))"
    using sh by (simp add: shape_def backs_ok_append)
  have c3: "tail zsl' = (if pre @ post = [] then None else Some (last (pre @ post)))"
  proof (cases post)
    case Nil
    then have "fwd ?h y 0 = None" using f0' by simp
    then have "tl' = bwd ?h y" by (simp add: tl'_def)
    then show ?thesis using zs(4) Nil oldb by simp
  next
    case (Cons f post')
    then have "fwd ?h y 0 = Some f" using f0' by simp
    then have "tl' = tail zsl" by (simp add: tl'_def)
    then show ?thesis using zs(4) tl Cons by simp
  qed
  have "rep zsl' (pre @ post)"
    unfolding rep_def using sh3 c2 c3 tight zs by simp
  then show ?thesis using run zs fr2 by auto
qed

section \<open>Histories keep the list sorted\<close>

lemma rep_New: "rep NewZSkipList []"
proof -
  let ?h = "store NewZSkipList"
  have h: "?h = [newZSkipListNode ZSKIPLIST_MAXLEVEL 0 None]" by (simp add: NewZSkipList_def)
  have ht0: "ht ?h 0 = ZSKIPLIST_MAXLEVEL" by (simp add: h ht_def newZSkipListNode_def)
  have "node_ok ?h 1 0 []"
    unfolding node_ok_def ht0
    by (simp add: h fwd_def spn_def newZSkipListNode_def)
  then have "shape ?h 0 1 []"
    using ht0 by (intro shapeI) (simp_all add: h newZSkipListNode_def ZSKIPLIST_MAXLEVEL_def)
  then show ?thesis by (simp add: rep_def NewZSkipList_def)
qed

lemma insort_key_split:
  "insort_key f x ys = takeWhile (\<lambda>y. f y < f x) ys @ x # dropWhile (\<lambda>y. f y < f x) ys"
  by (induction ys) auto

lemma sort_key_Cons: "sort_key f (x # xs) = insort_key f x (sort_key f xs)"
  by (simp add: sort_key_def)

lemma key_of_entry: "key_of h b = ekey (entry h b)"
  by (simp add: key_of_def)

lemma rep_keys: "rep zsl ns \<Longrightarrow> map (key_of (store zsl)) ns = map ekey (map (entry (store zsl)) ns)"
  by (simp add: key_of_entry)

lemma Insert_models:
  assumes m: "models zsl es" and ok: "(score, Uuid obj) \<notin> set (map ekey es)"
  shows "\<exists>x zsl'. Insert flips score obj zsl = Some (x, zsl') \<and> models zsl' ((score, obj) # es)"
proof -
  let ?h = "store zsl" and ?k = "(score, Uuid obj)"
  obtain ns where rp: "rep zsl ns" and en: "map (entry ?h) ns = sort_key ekey es"
    using m by (auto simp: models_def)
  have "set (map (key_of ?h) ns) = set (map ekey (sort_key ekey es))"
    using en by (metis rep_keys [OF rp])
  then have fresh: "?k \<notin> set (map (key_of ?h) ns)" using ok by simp
  let ?pre = "takeWhile (\<lambda>b. key_of ?h b < ?k) ns" and ?post = "dropWhile (\<lambda>b. key_of ?h b < ?k) ns"
  obtain zsl' where run: "Insert flips score obj zsl = Some (length ?h, zsl')"
    and rp': "rep zsl' (?pre @ length ?h # ?post)"
    and ex: "entry (store zsl') (length ?h) = (score, obj)"
    and eo: "\<forall>q<length ?h. entry (store zsl') q = entry ?h q"
    using Insert_rep [OF rp fresh, of flips] by blast
  have inh: "\<forall>a\<in>set ns. a < length ?h" using rp shape_nodes by (auto simp: rep_def)
  have old: "map (entry (store zsl')) xs = map (entry ?h) xs" if "set xs \<subseteq> set ns" for xs
    using that inh eo by auto
  have p1: "map (entry (store zsl')) ?pre = map (entry ?h) ?pre"
    by (rule old) (auto dest: set_takeWhileD)
  have p2: "map (entry (store zsl')) ?post = map (entry ?h) ?post"
    by (rule old) (auto dest: set_dropWhileD)
  have eqP: "(\<lambda>b. key_of ?h b < ?k) = (\<lambda>e. ekey e < ekey (score, obj)) \<circ> entry ?h"
    by (simp add: fun_eq_iff key_of_entry ekey_def)
  have "map (entry (store zsl')) (?pre @ length ?h # ?post)
      = map (entry ?h) ?pre @ (score, obj) # map (entry ?h) ?post"
    using p1 p2 ex by simp
  also have "\<dots> = takeWhile (\<lambda>e. ekey e < ekey (score, obj)) (map (entry ?h) ns) @ (score, obj) #
        dropWhile (\<lambda>e. ekey e < ekey (score, obj)) (map (entry ?h) ns)"
    unfolding eqP by (simp add: takeWhile_map dropWhile_map)
  also have "\<dots> = insort_key ekey (score, obj) (sort_key ekey es)"
    unfolding en by (rule insort_key_split [symmetric])
  also have "\<dots> = sort_key ekey ((score, obj) # es)" by (simp add: sort_key_Cons)
  finally have "models zsl' ((score, obj) # es)" using rp' unfolding models_def by blast
  then show ?thesis using run by blast
qed

lemma rep_sorted: "rep zsl ns \<Longrightarrow> sorted_wrt (<) (map (key_of (store zsl)) ns)"
  by (simp add: rep_def shape_def)

lemma Delete_models:
  assumes m: "models zsl es"
  shows "\<exists>r zsl'. Delete score obj zsl = Some (r, zsl') \<and>
     models zsl' (filter (\<lambda>se. ekey se \<noteq> (score, Uuid obj)) es) \<and>
     ((score, Uuid obj) \<notin> set (map ekey es) \<longrightarrow> r = None \<and> zsl' = zsl)"
proof -
  let ?h = "store zsl"
  define k where "k = (score, Uuid obj)"
  obtain ns where rp: "rep zsl ns" and en: "map (entry ?h) ns = sort_key ekey es"
    using m by (auto simp: models_def)
  have srt: "sorted_wrt (<) (map (key_of ?h) ns)" using rep_sorted [OF rp] .
  have "set (map (key_of ?h) ns) = set (map ekey (sort_key ekey es))"
    using en by (metis rep_keys [OF rp])
  then have keys: "set (map (key_of ?h) ns) = set (map ekey es)" by simp
  have fs: "sort_key ekey (filter (\<lambda>se. ekey se \<noteq> k) es) = filter (\<lambda>se. ekey se \<noteq> k) (map (entry ?h) ns)"
    unfolding en by (rule filter_sort [symmetric])
  have fm: "filter (\<lambda>se. ekey se \<noteq> k) (map (entry ?h) ns) = map (entry ?h) (filter (\<lambda>b. key_of ?h b \<noteq> k) ns)"
    by (simp add: filter_map comp_def key_of_entry)
  show ?thesis
  proof (cases "k \<in> set (map (key_of ?h) ns)")
    case True
    then obtain y where y: "y \<in> set ns" "key_of ?h y = k" by auto
    then obtain pre post where ns: "ns = pre @ y # post" by (meson split_list)
    have s2: "sorted_wrt (<) (map (key_of ?h) (pre @ y # post))" using srt ns by simp
    have kpre: "\<forall>b\<in>set pre. key_of ?h b < k" using s2 y(2) by (auto simp: sorted_wrt_append)
    have kpost: "\<forall>b\<in>set post. k < key_of ?h b" using s2 y(2) by (auto simp: sorted_wrt_append)
    have rp2: "rep zsl (pre @ y # post)" using rp ns by simp
    obtain zsl' where run: "Delete score obj zsl = Some (Some y, zsl')" and rp': "rep zsl' (pre @ post)"
      and fr: "frame ?h (store zsl')"
      using Delete_found [OF rp2 kpre [unfolded k_def] y(2) [unfolded k_def]] by blast
    have f1: "filter (\<lambda>b. key_of ?h b \<noteq> k) pre = pre" using kpre by (intro filter_True) auto
    have f2: "filter (\<lambda>b. key_of ?h b \<noteq> k) post = post" using kpost by (intro filter_True) auto
    have "filter (\<lambda>b. key_of ?h b \<noteq> k) ns = pre @ post" using f1 f2 y(2) ns by simp
    then have "map (entry (store zsl')) (pre @ post) = sort_key ekey (filter (\<lambda>se. ekey se \<noteq> k) es)"
      using fs fm fr by (simp add: frame_def)
    then have "models zsl' (filter (\<lambda>se. ekey se \<noteq> k) es)" using rp' unfolding models_def by blast
    moreover have "k \<in> set (map ekey es)" using True keys by simp
    ultimately show ?thesis using run unfolding k_def by blast
  next
    case False
    define pre where "pre = takeWhile (\<lambda>b. key_of ?h b < k) ns"
    define post where "post = dropWhile (\<lambda>b. key_of ?h b < k) ns"
    have ns: "ns = pre @ post" by (simp add: pre_def post_def)
    have kpre: "\<forall>b\<in>set pre. key_of ?h b < k" unfolding pre_def by (auto dest: set_takeWhileD)
    have kpost: "\<forall>b\<in>set post. \<not> key_of ?h b < k" unfolding post_def using dropWhile_sorted [OF srt] by blast
    have kpost': "\<forall>b\<in>set post. k < key_of ?h b"
    proof
      fix b assume b: "b \<in> set post"
      then have "key_of ?h b \<in> set (map (key_of ?h) ns)" using ns by simp
      then have ne: "key_of ?h b \<noteq> k" using False by metis
      have nlt: "\<not> key_of ?h b < k" using kpost b by blast
      show "k < key_of ?h b" using nlt ne linorder_less_linear [of k "key_of ?h b"] by metis
    qed
    have rp2: "rep zsl (pre @ post)" using rp ns by simp
    have run: "Delete score obj zsl = Some (None, zsl)"
      using Delete_missing [OF rp2 kpre [unfolded k_def] kpost' [unfolded k_def]] .
    have "\<forall>b\<in>set ns. key_of ?h b \<noteq> k" using False by auto
    then have "filter (\<lambda>b. key_of ?h b \<noteq> k) ns = ns" by (intro filter_True)
    then have "map (entry ?h) ns = sort_key ekey (filter (\<lambda>se. ekey se \<noteq> k) es)"
      using fs fm by simp
    then have "models zsl (filter (\<lambda>se. ekey se \<noteq> k) es)" using rp unfolding models_def by blast
    then show ?thesis using run unfolding k_def by blast
  qed
qed

lemma run_from_append: "run_from zsl (as @ bs) = run_from zsl as \<bind> (\<lambda>zsl'. run_from zsl' bs)"
  by (induction as arbitrary: zsl) (simp_all split: Option.bind_split)

lemma run_snoc: "run (ops @ [a]) = run ops \<bind> exec a"
  by (simp add: run_def run_from_append)

lemma valid_from_snoc:
  "valid_from es (as @ [a]) = (valid_from es as \<and> op_ok a (foldl (\<lambda>es a. apply_op a es) es as))"
  by (induction as arbitrary: es) auto

lemma valid_ops_snoc: "valid_ops (ops @ [a]) = (valid_ops ops \<and> op_ok a (present ops))"
  by (simp add: valid_ops_def present_def valid_from_snoc)

lemma present_snoc: "present (ops @ [a]) = apply_op a (present ops)"
  by (simp add: present_def)

lemma exec_models:
  assumes m: "models zsl es" and ok: "op_ok a es"
  shows "\<exists>zsl'. exec a zsl = Some zsl' \<and> models zsl' (apply_op a es)"
proof (cases a)
  case (OpInsert flips score obj)
  then show ?thesis using Insert_models [OF m, of score obj flips] ok by auto
next
  case (OpDelete score obj)
  then show ?thesis using Delete_models [OF m, of score obj] by auto
qed

lemma run_models: "valid_ops ops \<Longrightarrow> \<exists>zsl. run ops = Some zsl \<and> models zsl (present ops)"
proof (induction ops rule: rev_induct)
  case Nil
  have "models NewZSkipList []" using rep_New by (simp add: models_def)
  then show ?case by (simp add: run_def present_def)
next
  case (snoc a ops)
  then obtain zsl where z: "run ops = Some zsl" "models zsl (present ops)" and ok: "op_ok a (present ops)"
    by (auto simp: valid_ops_snoc)
  obtain zsl' where "exec a zsl = Some zsl'" "models zsl' (apply_op a (present ops))"
    using exec_models [OF z(2) ok] by blast
  then show ?case using z(1) by (simp add: run_snoc present_snoc)
qed

lemma level0_next:
  assumes sh: "shape h hp lv ns" and sp: "hp # ns = A @ a # B"
  shows "a < length h \<and> 0 < ht h a \<and> fwd h a 0 = (case B of [] \<Rightarrow> None | b # _ \<Rightarrow> Some b) \<and>
     spn h a 0 = (if B = [] then 0 else 1)"
proof -
  have ok: "node_ok h lv a B" using shape_slots [OF sh sp] .
  have ain: "a \<in> set (hp # ns)" using sp by simp
  have a: "a < length h" using shape_all_in [OF sh ain] .
  have lv: "0 < lv" using sh by (simp add: shape_def)
  have h0: "0 < ht h a"
  proof (cases "a = hp")
    case True
    then show ?thesis using sh by (simp add: shape_def ZSKIPLIST_MAXLEVEL_def)
  next
    case False
    then have "a \<in> set ns" using ain by simp
    then show ?thesis using shape_nodes [OF sh, of a] by simp
  qed
  have "set B \<subseteq> set ns" using sp by (cases A) auto
  then have hB: "\<forall>b\<in>set B. 1 \<le> ht h b" using shape_nodes [OF sh] by blast
  have f: "fwd h a 0 = (case B of [] \<Rightarrow> None | b # _ \<Rightarrow> Some b)"
    using node_ok_fwd [OF ok h0] nxt_level0 [OF hB] by simp
  have "dst (ht h) 0 B = (if B = [] then 0 else 1)"
    using hB by (cases B) (auto simp: dst_Cons)
  then have "spn h a 0 = (if B = [] then 0 else 1)" using node_ok_spn [OF ok h0 lv] by simp
  then show ?thesis using a h0 f by blast
qed

lemma chain0_shape:
  assumes sh: "shape h hp lv ns"
  shows "hp # ns = A @ a # B \<Longrightarrow> chain0 h (fwd h a 0) = Some B"
proof (induction B arbitrary: A a)
  case Nil
  then have "fwd h a 0 = None" using level0_next [OF sh Nil] by simp
  then show ?case by (subst chain0.simps) simp
next
  case (Cons b B)
  have f: "fwd h a 0 = Some b" using level0_next [OF sh Cons.prems] by simp
  have sp: "hp # ns = (A @ [a]) @ b # B" using Cons.prems by simp
  have b: "b < length h" "0 < ht h b" using level0_next [OF sh sp] by simp_all
  have "chain0 h (fwd h b 0) = Some B" using Cons.IH [OF sp] .
  then show ?case unfolding f
    by (subst chain0.simps) (simp add: slot_at_in [OF b])
qed

lemma nodes_of_rep: "rep zsl ns \<Longrightarrow> nodes_of zsl = Some ns"
proof -
  assume rp: "rep zsl ns"
  then have sh: "shape (store zsl) (head zsl) (zlevel zsl) ns" by (simp add: rep_def)
  have sp: "head zsl # ns = [] @ head zsl # ns" by simp
  have hp: "head zsl < length (store zsl)" "0 < ht (store zsl) (head zsl)"
    using level0_next [OF sh sp] by simp_all
  show ?thesis
    unfolding nodes_of_def using chain0_shape [OF sh sp] by (simp add: slot_at_in [OF hp])
qed

lemma node_lt_key: "node_lt h a b \<longleftrightarrow> key_of h a < key_of h b"
  by (auto simp: node_lt_def key_of_def ekey_def entry_def)

lemma run_rep: "valid_ops ops \<Longrightarrow> \<exists>zsl ns. run ops = Some zsl \<and> rep zsl ns \<and>
    map (entry (store zsl)) ns = sort_key ekey (present ops)"
  using run_models [of ops] by (auto simp: models_def)

lemma present_inserts:
  "present (map (\<lambda>(flips, score, obj). OpInsert flips score obj) xs) = rev (map snd xs)"
  by (induction xs rule: rev_induct) (auto simp: present_snoc present_def)

lemma valid_inserts:
  "distinct (map (\<lambda>(flips, se). ekey se) xs) \<Longrightarrow>
     valid_ops (map (\<lambda>(flips, score, obj). OpInsert flips score obj) xs)"
proof (induction xs rule: rev_induct)
  case Nil
  then show ?case by (simp add: valid_ops_def)
next
  case (snoc x xs)
  obtain flips score obj where x: "x = (flips, score, obj)" by (cases x) auto
  have d: "distinct (map (\<lambda>(flips, se). ekey se) xs)" "ekey (score, obj) \<notin> set (map (\<lambda>(flips, se). ekey se) xs)"
    using snoc.prems x by simp_all
  have "(\<lambda>(flips, se). ekey se) = ekey \<circ> (snd :: nat \<times> 32 word \<times> entity \<Rightarrow> 32 word \<times> entity)"
    by (auto simp: fun_eq_iff)
  then have "set (map ekey (rev (map snd xs))) = set (map (\<lambda>(flips, se). ekey se) xs)"
    by (simp add: image_image)
  then have "(score, Uuid obj) \<notin> set (map ekey (rev (map snd xs)))" using d(2) by (simp add: ekey_def)
  then show ?case using snoc.IH [OF d(1)] x by (simp add: valid_ops_snoc present_inserts)
qed

lemma valid_deletes:
  "valid_ops (ops @ map (\<lambda>(score, obj). OpDelete score obj) ds) = valid_ops ops"
proof (induction ds rule: rev_induct)
  case Nil
  then show ?case by simp
next
  case (snoc d ds)
  have "valid_ops ((ops @ map (\<lambda>(score, obj). OpDelete score obj) ds) @ [case d of (score, obj) \<Rightarrow> OpDelete score obj])
      = valid_ops (ops @ map (\<lambda>(score, obj). OpDelete score obj) ds)"
    unfolding valid_ops_snoc by (cases d) simp
  then show ?case using snoc.IH by simp
qed

lemma present_deletes:
  "present (ops @ map (\<lambda>(score, obj). OpDelete score obj) ds) =
     filter (\<lambda>se. ekey se \<notin> ekey ` set ds) (present ops)"
proof (induction ds rule: rev_induct)
  case Nil
  then show ?case by simp
next
  case (snoc d ds)
  obtain score obj where d: "d = (score, obj)" by (cases d) auto
  have "present ((ops @ map (\<lambda>(score, obj). OpDelete score obj) ds) @ [OpDelete score obj])
      = filter (\<lambda>se. ekey se \<noteq> (score, Uuid obj)) (filter (\<lambda>se. ekey se \<notin> ekey ` set ds) (present ops))"
    unfolding present_snoc using snoc.IH by simp
  also have "\<dots> = filter (\<lambda>se. ekey se \<notin> ekey ` set (ds @ [d])) (present ops)"
    by (auto simp: d ekey_def intro!: filter_cong)
  finally show ?case using d by simp
qed

lemma models_empty: "models zsl [] \<Longrightarrow> zlength zsl = 0 \<and> zlevel zsl = 1 \<and> tail zsl = None"
proof -
  assume "models zsl []"
  then have rp: "rep zsl []" by (auto simp: models_def)
  then have sh: "shape (store zsl) (head zsl) (zlevel zsl) []" by (simp add: rep_def)
  have "1 \<le> zlevel zsl" using sh by (simp add: shape_def)
  moreover have "\<not> 1 < zlevel zsl" using rp by (simp add: rep_def)
  ultimately show ?thesis using rp by (simp add: rep_def)
qed

section \<open>Queries under the representation invariant\<close>

lemma rank_walk_shape:
  assumes sh: "shape h hp lv (pre @ post)"
    and pre: "\<forall>b\<in>set pre. key_of h b \<le> (score, uid)"
    and post: "\<forall>b\<in>set post. \<not> key_of h b \<le> (score, uid)"
    and i: "i < lv"
  shows "hp # pre = A @ a # B \<Longrightarrow> i < ht h a \<Longrightarrow>
     \<exists>A' u B'. rank_walk h score uid i a r = Some (u, r + int (length A') - int (length A)) \<and>
        hp # pre = A' @ u # B' \<and> i < ht h u \<and> (\<forall>b\<in>set B'. ht h b \<le> i)"
proof (induction "length B" arbitrary: A a B r rule: less_induct)
  case less
  have all: "hp # pre @ post = A @ a # (B @ post)" using less.prems(1) by simp
  have nok: "node_ok h lv a (B @ post)" using shape_slots [OF sh all] .
  have "a \<in> set (hp # pre @ post)" using all by (metis in_set_conv_decomp)
  then have a_in: "a < length h" using shape_all_in [OF sh] by blast
  have f: "fwd h a i = nxt (ht h) i (B @ post)" using node_ok_fwd [OF nok less.prems(2)] .
  have s: "spn h a i = int (dst (ht h) i (B @ post))" using node_ok_spn [OF nok less.prems(2) i] .
  show ?case
  proof (cases "nxt (ht h) i B")
    case None
    then have low: "\<forall>b\<in>set B. ht h b \<le> i" by (simp add: nxt_None_iff)
    have f': "fwd h a i = nxt (ht h) i post" using f low by (simp add: nxt_append_low)
    have "rank_walk h score uid i a r = Some (a, r)"
    proof (cases "nxt (ht h) i post")
      case None
      then show ?thesis
        by (subst rank_walk.simps) (simp add: slot_at_in a_in less.prems(2) f')
    next
      case (Some g)
      then have "g \<in> set post" by (rule nxt_in)
      then have "\<not> key_of h g \<le> (score, uid)" "g < length h" "Obj (h ! g) \<noteq> None"
        using post shape_nodes [OF sh, of g] by auto
      then show ?thesis
        by (subst rank_walk.simps) (simp add: slot_at_in a_in less.prems(2) f' Some key_le_eq)
    qed
    then show ?thesis using less.prems low by (intro exI [of _ A] exI [of _ a] exI [of _ B]) simp
  next
    case (Some g)
    then obtain B1 B2 where B: "B = B1 @ g # B2" and low: "\<forall>b\<in>set B1. ht h b \<le> i" and hi: "i < ht h g"
      using nxt_SomeD by metis
    have f': "fwd h a i = Some g" using f B low hi by (simp add: nxt_hit)
    have s': "spn h a i = int (length B1) + 1" using s B low hi by (simp add: dst_hit)
    have "g \<in> set pre" using less.prems(1) B by (cases A) auto
    then have g: "key_of h g \<le> (score, uid)" "g < length h" "Obj (h ! g) \<noteq> None"
      using pre shape_nodes [OF sh, of g] by auto
    have step: "rank_walk h score uid i a r = rank_walk h score uid i g (r + (int (length B1) + 1))"
      by (subst rank_walk.simps) (simp add: slot_at_in a_in less.prems(2) f' s' g key_le_eq)
    have "length B2 < length B" using B by simp
    moreover have "hp # pre = (A @ a # B1) @ g # B2" using less.prems(1) B by simp
    ultimately obtain A' u B' where
      "rank_walk h score uid i g (r + (int (length B1) + 1)) =
         Some (u, (r + (int (length B1) + 1)) + int (length A') - int (length (A @ a # B1)))"
      "hp # pre = A' @ u # B'" "i < ht h u" "\<forall>b\<in>set B'. ht h b \<le> i"
      using less.hyps [of B2 "A @ a # B1" g "r + (int (length B1) + 1)"] hi by blast
    then show ?thesis using step by (intro exI [of _ A'] exI [of _ u] exI [of _ B']) simp
  qed
qed

lemma low_level0:
  assumes sh: "shape h hp lv ns" and sp: "hp # ns = A @ u # B @ C" and low: "\<forall>b\<in>set B. ht h b \<le> 0"
  shows "B = []"
proof (rule ccontr)
  assume "B \<noteq> []"
  then obtain b where b: "b \<in> set B" by (cases B) auto
  then have "b \<in> set ns" using sp by (cases A) auto
  then have "1 \<le> ht h b" using shape_nodes [OF sh, of b] by simp
  with low b show False by auto
qed

lemma rank_search_shape:
  assumes sh: "shape h hp lv (pre @ post)"
    and pre: "\<forall>b\<in>set pre. key_of h b \<le> (score, uid)"
    and post: "\<forall>b\<in>set post. \<not> key_of h b \<le> (score, uid)"
    and uniq: "\<forall>b\<in>set pre. Uuid (snd (entry h b)) = uid \<longrightarrow> b = last pre"
  shows "n \<le> lv \<Longrightarrow> hp # pre = A @ a # B \<Longrightarrow> n \<le> ht h a \<Longrightarrow>
     (n = 0 \<longrightarrow> \<not> (pre \<noteq> [] \<and> Uuid (snd (entry h (last pre))) = uid)) \<Longrightarrow>
     rank_search h score uid n a (int (length A)) =
       Some (if pre \<noteq> [] \<and> Uuid (snd (entry h (last pre))) = uid then int (length pre) else 0)"
proof (induction n arbitrary: A a B)
  case 0
  then show ?case by simp
next
  case (Suc i)
  let ?R = "if pre \<noteq> [] \<and> Uuid (snd (entry h (last pre))) = uid then int (length pre) else 0"
  have il: "i < lv" using Suc.prems(1) by simp
  obtain A' u B' where w: "rank_walk h score uid i a (int (length A)) = Some (u, int (length A'))"
    and sp: "hp # pre = A' @ u # B'" and hu: "i < ht h u" and low: "\<forall>b\<in>set B'. ht h b \<le> i"
    using rank_walk_shape [OF sh pre post il Suc.prems(2), of "int (length A)"] Suc.prems(3) by auto
  have d: "distinct (hp # pre)" using shape_distinct [OF sh] by simp
  have uin: "u \<in> set (hp # pre @ post)" using sp by (metis in_set_conv_decomp append_Cons set_append Un_iff)
  have ul: "u < length h" using shape_all_in [OF sh uin] .
  have au: "arr_get h u = Some (h ! u)" using ul by simp
  have B0: "B' = []" if "i = 0"
  proof -
    have "hp # pre @ post = A' @ u # B' @ post" using sp by simp
    then show ?thesis using low_level0 [OF sh] low that by blast
  qed
  define m where "m \<longleftrightarrow> Obj (h ! u) \<noteq> None \<and> map_option Uuid (Obj (h ! u)) = Some uid"
  have step: "rank_search h score uid (Suc i) a (int (length A)) =
      (if m then Some (int (length A')) else rank_search h score uid i u (int (length A')))"
    using w au by (simp add: m_def)
  have mu: "m \<longleftrightarrow> u \<noteq> hp \<and> Uuid (snd (entry h u)) = uid"
  proof (cases "u = hp")
    case True
    then have "Obj (h ! u) = None" using sh by (simp add: shape_def)
    then show ?thesis using True by (simp add: m_def)
  next
    case False
    then have "u \<in> set (pre @ post)" using uin by simp
    then obtain e where "Obj (h ! u) = Some e" using shape_nodes [OF sh, of u] by auto
    then show ?thesis using False by (simp add: m_def entry_def)
  qed
  show ?case
  proof (cases m)
    case True
    then have unh: "u \<noteq> hp" and uu: "Uuid (snd (entry h u)) = uid" using mu by simp_all
    have upre: "u \<in> set pre" using sp unh by (cases A') auto
    then have ulast: "u = last pre" and ne: "pre \<noteq> []" using uniq uu by auto
    have "u \<notin> set B'" using d sp by auto
    moreover have "last (A' @ u # B') = u" using ulast ne sp by (metis last_ConsR)
    ultimately have "B' = []" by (metis last_appendR last_in_set last_ConsR list.distinct(1))
    then have "length (hp # pre) = length (A' @ [u])" using sp by simp
    then have "int (length A') = int (length pre)" by simp
    then show ?thesis using step True ne uu ulast by simp
  next
    case False
    have nxt0: "i = 0 \<longrightarrow> \<not> (pre \<noteq> [] \<and> Uuid (snd (entry h (last pre))) = uid)"
    proof (intro impI notI)
      assume i0: "i = 0" and c: "pre \<noteq> [] \<and> Uuid (snd (entry h (last pre))) = uid"
      have "hp # pre = A' @ [u]" using sp B0 [OF i0] by simp
      then have "last (hp # pre) = u" by (metis last_snoc)
      then have "u = last pre" using c by simp
      moreover have "last pre \<in> set pre" using c by simp
      moreover have "hp \<notin> set pre" using d by simp
      ultimately have "u \<noteq> hp \<and> Uuid (snd (entry h u)) = uid" using c by auto
      then show False using False mu by simp
    qed
    have "i \<le> lv" "i \<le> ht h u" using il hu by simp_all
    then have "rank_search h score uid i u (int (length A')) = Some ?R"
      using Suc.IH [OF _ sp _ nxt0] by blast
    then show ?thesis using step False by simp
  qed
qed

lemma GetRank_rep:
  assumes rp: "rep zsl (pre @ post)"
    and pre: "\<forall>b\<in>set pre. key_of (store zsl) b \<le> (score, Uuid obj)"
    and post: "\<forall>b\<in>set post. \<not> key_of (store zsl) b \<le> (score, Uuid obj)"
    and uniq: "\<forall>b\<in>set pre. Uuid (snd (entry (store zsl) b)) = Uuid obj \<longrightarrow> b = last pre"
  shows "GetRank score obj zsl =
       Some (if pre \<noteq> [] \<and> Uuid (snd (entry (store zsl) (last pre))) = Uuid obj then int (length pre) else 0)"
proof -
  have sh: "shape (store zsl) (head zsl) (zlevel zsl) (pre @ post)" using rp by (simp add: rep_def)
  have lv: "1 \<le> zlevel zsl" "zlevel zsl \<le> ZSKIPLIST_MAXLEVEL" "ht (store zsl) (head zsl) = ZSKIPLIST_MAXLEVEL"
    using sh by (simp_all add: shape_def)
  have c: "zlevel zsl \<le> zlevel zsl" "head zsl # pre = [] @ head zsl # pre" "zlevel zsl \<le> ht (store zsl) (head zsl)"
    "zlevel zsl = 0 \<longrightarrow> \<not> (pre \<noteq> [] \<and> Uuid (snd (entry (store zsl) (last pre))) = Uuid obj)"
    using lv by simp_all
  show ?thesis
    unfolding GetRank_def using rank_search_shape [OF sh pre post uniq c] by simp
qed

lemma sorted_take_le:
  assumes s: "sorted_wrt (<) (map f ns)" and j: "j < length ns"
  shows "\<forall>b\<in>set (take (Suc j) ns). f b \<le> (f (ns ! j) :: 'a :: linorder)"
proof
  fix b assume "b \<in> set (take (Suc j) ns)"
  then obtain i where i: "i < Suc j" "b = ns ! i" using j by (auto simp: in_set_conv_nth)
  have "i < j \<Longrightarrow> f (ns ! i) < f (ns ! j)"
    using s j by (simp add: sorted_wrt_map sorted_wrt_iff_nth_less)
  then show "f b \<le> f (ns ! j)" using i by (cases "i = j") (auto simp: less_imp_le)
qed

lemma sorted_drop_gt:
  assumes s: "sorted_wrt (<) (map f ns)" and j: "j < length ns"
  shows "\<forall>b\<in>set (drop (Suc j) ns). \<not> f b \<le> (f (ns ! j) :: 'a :: linorder)"
proof
  fix b assume "b \<in> set (drop (Suc j) ns)"
  then obtain i where i: "j < i" "i < length ns" "b = ns ! i"
    by (auto simp: in_set_conv_nth) (metis add_Suc less_add_Suc1 less_diff_conv add.commute)
  have "f (ns ! j) < f (ns ! i)"
    using s i by (simp add: sorted_wrt_map sorted_wrt_iff_nth_less)
  then show "\<not> f b \<le> f (ns ! j)" using i by (simp add: not_le)
qed

lemma GetRank_at:
  assumes rp: "rep zsl ns" and d: "distinct (map (\<lambda>b. Uuid (snd (entry (store zsl) b))) ns)"
    and j: "j < length ns"
  shows "GetRank (fst (entry (store zsl) (ns ! j))) (snd (entry (store zsl) (ns ! j))) zsl = Some (int j + 1)"
proof -
  let ?h = "store zsl"
  let ?u = "\<lambda>b. Uuid (snd (entry ?h b))"
  define pre where "pre = take (Suc j) ns"
  define post where "post = drop (Suc j) ns"
  have ns: "ns = pre @ post" by (simp add: pre_def post_def)
  have k: "key_of ?h (ns ! j) = (fst (entry ?h (ns ! j)), Uuid (snd (entry ?h (ns ! j))))"
    by (simp add: key_of_def ekey_def)
  have lp: "last pre = ns ! j" "pre \<noteq> []" "length pre = Suc j"
    using j by (auto simp: pre_def take_Suc_conv_app_nth)
  have a: "\<forall>b\<in>set pre. key_of ?h b \<le> (fst (entry ?h (ns ! j)), Uuid (snd (entry ?h (ns ! j))))"
    using sorted_take_le [OF rep_sorted [OF rp] j] by (simp add: pre_def k)
  have b: "\<forall>b\<in>set post. \<not> key_of ?h b \<le> (fst (entry ?h (ns ! j)), Uuid (snd (entry ?h (ns ! j))))"
    using sorted_drop_gt [OF rep_sorted [OF rp] j] by (simp add: post_def k)
  have inj: "inj_on ?u (set ns)" using d by (simp add: distinct_map)
  have c: "\<forall>b\<in>set pre. ?u b = Uuid (snd (entry ?h (ns ! j))) \<longrightarrow> b = last pre"
  proof (intro ballI impI)
    fix b assume "b \<in> set pre" and e: "?u b = Uuid (snd (entry ?h (ns ! j)))"
    then have "b \<in> set ns" using ns by simp
    moreover have "ns ! j \<in> set ns" using j by simp
    ultimately show "b = last pre" using inj e lp by (auto dest: inj_onD)
  qed
  show ?thesis using GetRank_rep [OF rp [unfolded ns] a b c] lp by simp
qed

lemma takeWhile_le: "\<forall>b\<in>set (takeWhile (\<lambda>b. f b \<le> k) ns). f b \<le> k"
  by (auto dest: set_takeWhileD)

lemma dropWhile_sorted_le:
  "sorted_wrt (<) (map f ns) \<Longrightarrow> b \<in> set (dropWhile (\<lambda>b. f b \<le> (k::'a::linorder)) ns) \<Longrightarrow> \<not> f b \<le> k"
proof (induction ns)
  case Nil
  then show ?case by simp
next
  case (Cons a ns)
  show ?case
  proof (cases "f a \<le> k")
    case True
    then show ?thesis using Cons by simp
  next
    case False
    then show ?thesis using Cons.prems by auto
  qed
qed

lemma GetRank_no_uuid:
  assumes rp: "rep zsl ns" and no: "Uuid obj \<notin> set (map (\<lambda>b. Uuid (snd (entry (store zsl) b))) ns)"
  shows "GetRank score obj zsl = Some 0"
proof -
  let ?h = "store zsl"
  define pre where "pre = takeWhile (\<lambda>b. key_of ?h b \<le> (score, Uuid obj)) ns"
  define post where "post = dropWhile (\<lambda>b. key_of ?h b \<le> (score, Uuid obj)) ns"
  have ns: "ns = pre @ post" by (simp add: pre_def post_def)
  have a: "\<forall>b\<in>set pre. key_of ?h b \<le> (score, Uuid obj)"
    unfolding pre_def by (rule takeWhile_le)
  have b: "\<forall>b\<in>set post. \<not> key_of ?h b \<le> (score, Uuid obj)"
    unfolding post_def using dropWhile_sorted_le [OF rep_sorted [OF rp]] by blast
  have nu: "\<forall>b\<in>set pre. Uuid (snd (entry ?h b)) \<noteq> Uuid obj"
    using no ns by (force simp: image_iff)
  then have c: "\<forall>b\<in>set pre. Uuid (snd (entry ?h b)) = Uuid obj \<longrightarrow> b = last pre" by simp
  have "pre \<noteq> [] \<Longrightarrow> Uuid (snd (entry ?h (last pre))) \<noteq> Uuid obj" using nu last_in_set by blast
  then show ?thesis using GetRank_rep [OF rp [unfolded ns] a b c] by auto
qed

lemma unique_from_snoc:
  "unique_from es (as @ [a]) = (unique_from es as \<and> op_unique a (foldl (\<lambda>es a. apply_op a es) es as))"
  by (induction as arbitrary: es) auto

lemma unique_ids_snoc: "unique_ids (ops @ [a]) = (unique_ids ops \<and> op_unique a (present ops))"
  by (simp add: unique_ids_def present_def unique_from_snoc)

lemma op_unique_ok: "op_unique a es \<Longrightarrow> op_ok a es"
  by (cases a) (force simp: ekey_def image_iff)+

lemma unique_ids_valid: "unique_ids ops \<Longrightarrow> valid_ops ops"
proof (induction ops rule: rev_induct)
  case Nil
  then show ?case by (simp add: valid_ops_def)
next
  case (snoc a ops)
  then have "valid_ops ops" "op_unique a (present ops)" by (simp_all add: unique_ids_snoc)
  then show ?case by (simp add: valid_ops_snoc op_unique_ok)
qed

lemma unique_ids_distinct: "unique_ids ops \<Longrightarrow> distinct (map (Uuid \<circ> snd) (present ops))"
proof (induction ops rule: rev_induct)
  case Nil
  then show ?case by (simp add: present_def)
next
  case (snoc a ops)
  have u: "op_unique a (present ops)" and "unique_ids ops"
    using snoc.prems by (simp_all add: unique_ids_snoc)
  then have d: "distinct (map (Uuid \<circ> snd) (present ops))" using snoc.IH by blast
  show ?case
  proof (cases a)
    case (OpInsert flips score obj)
    then show ?thesis using d u by (simp add: present_snoc comp_def)
  next
    case (OpDelete score obj)
    then show ?thesis using d by (simp add: present_snoc distinct_map_filter comp_def)
  qed
qed

lemma distinct_map_insort:
  "distinct (map f (insort_key g x ys)) = (f x \<notin> f ` set ys \<and> distinct (map f ys))"
proof (induction ys)
  case Nil
  then show ?case by simp
next
  case (Cons y ys)
  then show ?case by (cases "g x \<le> g y") (auto simp: set_insort_key)
qed

lemma set_sort_key: "set (sort_key g xs) = set xs"
  by simp

lemma distinct_map_sort: "distinct (map f (sort_key g xs)) = distinct (map f xs)"
  by (induction xs) (simp_all add: distinct_map_insort)

lemma run_distinct:
  assumes "valid_ops ops" and "distinct (map (Uuid \<circ> snd) (present ops))"
  shows "\<exists>zsl ns. run ops = Some zsl \<and> rep zsl ns \<and>
    map (entry (store zsl)) ns = sort_key ekey (present ops) \<and>
    distinct (map (\<lambda>b. Uuid (snd (entry (store zsl) b))) ns)"
proof -
  obtain zsl ns where r: "run ops = Some zsl" "rep zsl ns"
    and en: "map (entry (store zsl)) ns = sort_key ekey (present ops)"
    using run_rep [OF assms(1)] by blast
  have "distinct (map (Uuid \<circ> snd) (map (entry (store zsl)) ns))"
    using assms(2) by (simp only: en distinct_map_sort)
  then have "distinct (map (\<lambda>b. Uuid (snd (entry (store zsl) b))) ns)" by (simp add: comp_def)
  then show ?thesis using r en by blast
qed

lemma element_walk_shape:
  assumes sh: "shape h hp lv ns" and i: "i < lv"
  shows "hp # ns = A @ a # B \<Longrightarrow> i < ht h a \<Longrightarrow> int (length A) \<le> rank \<Longrightarrow>
     \<exists>A' u B'. element_walk h rank i a (int (length A)) = Some (u, int (length A')) \<and>
        hp # ns = A' @ u # B' \<and> i < ht h u \<and> int (length A') \<le> rank \<and>
        (\<forall>b\<in>set (take (nat rank - length A') B'). ht h b \<le> i)"
proof (induction "length B" arbitrary: A a B rule: less_induct)
  case less
  have nok: "node_ok h lv a B" using shape_slots [OF sh less.prems(1)] .
  have "a \<in> set (hp # ns)" using less.prems(1) by (metis in_set_conv_decomp)
  then have a_in: "a < length h" using shape_all_in [OF sh] by blast
  have f: "fwd h a i = nxt (ht h) i B" using node_ok_fwd [OF nok less.prems(2)] .
  have s: "spn h a i = int (dst (ht h) i B)" using node_ok_spn [OF nok less.prems(2) i] .
  show ?case
  proof (cases "nxt (ht h) i B")
    case None
    then have low: "\<forall>b\<in>set B. ht h b \<le> i" by (simp add: nxt_None_iff)
    have "element_walk h rank i a (int (length A)) = Some (a, int (length A))"
      by (subst element_walk.simps) (simp add: slot_at_in a_in less.prems(2) f None)
    moreover have "\<forall>b\<in>set (take (nat rank - length A) B). ht h b \<le> i"
      using low by (meson in_set_takeD)
    ultimately show ?thesis using less.prems by blast
  next
    case (Some g)
    then obtain B1 B2 where B: "B = B1 @ g # B2" and low: "\<forall>b\<in>set B1. ht h b \<le> i" and hi: "i < ht h g"
      using nxt_SomeD by metis
    have f': "fwd h a i = Some g" using f Some by simp
    have s': "spn h a i = int (length B1) + 1" using s B low hi by (simp add: dst_hit)
    show ?thesis
    proof (cases "int (length A) + (int (length B1) + 1) \<le> rank")
      case True
      have len: "int (length A) + (int (length B1) + 1) = int (length (A @ a # B1))" by simp
      have "element_walk h rank i a (int (length A)) =
          element_walk h rank i g (int (length A) + (int (length B1) + 1))"
        using True by (subst element_walk.simps) (simp add: slot_at_in a_in less.prems(2) f' s')
      then have step: "element_walk h rank i a (int (length A)) =
          element_walk h rank i g (int (length (A @ a # B1)))"
        by (simp only: len)
      have "length B2 < length B" using B by simp
      moreover have "hp # ns = (A @ a # B1) @ g # B2" using less.prems(1) B by simp
      moreover have "int (length (A @ a # B1)) \<le> rank" using True by simp
      ultimately show ?thesis using less.hyps [of B2 "A @ a # B1" g] hi step by simp
    next
      case False
      have "element_walk h rank i a (int (length A)) = Some (a, int (length A))"
        using False by (subst element_walk.simps) (simp add: slot_at_in a_in less.prems(2) f' s')
      moreover have "\<forall>b\<in>set (take (nat rank - length A) B). ht h b \<le> i"
      proof -
        have "nat rank - length A \<le> length B1" using False less.prems(3) by linarith
        then have "take (nat rank - length A) B = take (nat rank - length A) B1" by (simp add: B)
        then show ?thesis using low by (metis in_set_takeD)
      qed
      ultimately show ?thesis using less.prems by blast
    qed
  qed
qed

lemma element_search_shape:
  assumes sh: "shape h hp lv ns"
  shows "n \<le> lv \<Longrightarrow> hp # ns = A @ a # B \<Longrightarrow> n \<le> ht h a \<Longrightarrow> int (length A) \<le> rank \<Longrightarrow>
     \<forall>b\<in>set (take (nat rank - length A) B). ht h b \<le> n \<Longrightarrow>
     (n < lv \<longrightarrow> int (length A) \<noteq> rank) \<Longrightarrow>
     element_search h rank n a (int (length A)) =
       Some (if rank \<le> int (length ns) then Some ((hp # ns) ! nat rank) else None)"
proof (induction n arbitrary: A a B)
  case 0
  have lv: "0 < lv" using sh by (simp add: shape_def)
  then have lt: "int (length A) < rank" using 0 by simp
  have "B = []"
  proof (rule ccontr)
    assume "B \<noteq> []"
    then obtain b B' where B: "B = b # B'" by (cases B) auto
    have "0 < nat rank - length A" using lt by linarith
    then have "b \<in> set (take (nat rank - length A) B)" by (cases "nat rank - length A") (auto simp: B)
    then have "ht h b \<le> 0" using 0 by blast
    moreover have "b \<in> set ns" using "0.prems"(2) B by (cases A) auto
    ultimately show False using shape_nodes [OF sh, of b] by simp
  qed
  then have "length (hp # ns) = length (A @ [a])" using "0.prems"(2) by simp
  then have "int (length ns) < rank" using lt by simp
  then show ?case by simp
next
  case (Suc i)
  have il: "i < lv" using Suc.prems(1) by simp
  have ia: "i < ht h a" using Suc.prems(3) by simp
  obtain A' u B' where w: "element_walk h rank i a (int (length A)) = Some (u, int (length A'))"
    and sp: "hp # ns = A' @ u # B'" and hu: "i < ht h u" and le: "int (length A') \<le> rank"
    and low: "\<forall>b\<in>set (take (nat rank - length A') B'). ht h b \<le> i"
    using element_walk_shape [OF sh il Suc.prems(2) ia Suc.prems(4)] by blast
  show ?case
  proof (cases "int (length A') = rank")
    case True
    then have n: "nat rank = length A'" by simp
    have "(hp # ns) ! nat rank = u" by (simp only: sp n nth_append_length)
    moreover have "length (hp # ns) = length (A' @ u # B')" by (simp only: sp)
    then have "rank \<le> int (length ns)" using True by simp
    ultimately show ?thesis using w True by simp
  next
    case False
    have "i \<le> lv" "i \<le> ht h u" using il hu by simp_all
    then have "element_search h rank i u (int (length A')) =
       Some (if rank \<le> int (length ns) then Some ((hp # ns) ! nat rank) else None)"
      using Suc.IH [OF _ sp _ le low] False by blast
    then show ?thesis using w False by simp
  qed
qed

lemma GetElementByRank_rep:
  assumes rp: "rep zsl ns" and r: "0 \<le> rank"
  shows "GetElementByRank rank zsl =
     Some (if rank \<le> int (length ns) then Some ((head zsl # ns) ! nat rank) else None)"
proof -
  have sh: "shape (store zsl) (head zsl) (zlevel zsl) ns" using rp by (simp add: rep_def)
  have lv: "zlevel zsl \<le> ht (store zsl) (head zsl)" using shape_head [OF sh] by simp
  have low: "\<forall>b\<in>set (take (nat rank - length ([]::nat list)) ns). ht (store zsl) b \<le> zlevel zsl"
    using shape_nodes [OF sh] by (meson in_set_takeD)
  have c: "zlevel zsl \<le> zlevel zsl" "head zsl # ns = [] @ head zsl # ns"
    "int (length ([]::nat list)) \<le> rank"
    "zlevel zsl < zlevel zsl \<longrightarrow> int (length ([]::nat list)) \<noteq> rank"
    using r by simp_all
  show ?thesis
    unfolding GetElementByRank_def
    using element_search_shape [OF sh c(1) c(2) lv c(3) low c(4)] by simp
qed

lemma span_sum_shape:
  assumes sh: "shape h hp lv ns"
  shows "hp # ns = A @ x # B @ C \<Longrightarrow> B \<noteq> [] \<Longrightarrow>
     span_sum h x (last B) acc = Some (acc + int (length B))"
proof (induction B arbitrary: A x acc)
  case Nil
  then show ?case by simp
next
  case (Cons b B')
  have d: "distinct (A @ x # (b # B') @ C)" using shape_distinct [OF sh] Cons.prems(1) by metis
  then have ne: "x \<noteq> last (b # B')" by (metis distinct_append distinct.simps(2) last_in_set list.distinct(1) Un_iff set_append)
  have l0: "x < length h" "0 < ht h x" "fwd h x 0 = Some b" "spn h x 0 = 1"
    using level0_next [OF sh, of A x "(b # B') @ C"] Cons.prems(1) by simp_all
  have step: "span_sum h x (last (b # B')) acc = span_sum h b (last (b # B')) (acc + 1)"
    using ne by (subst span_sum.simps) (simp add: slot_at_in l0)
  show ?case
  proof (cases "B' = []")
    case True
    then show ?thesis using step by (simp add: span_sum.simps)
  next
    case False
    have "hp # ns = (A @ [x]) @ b # B' @ C" using Cons.prems(1) by simp
    then have "span_sum h b (last B') (acc + 1) = Some (acc + 1 + int (length B'))"
      using Cons.IH [OF _ False] by blast
    then show ?thesis using step False by simp
  qed
qed

lemma span_sum_at:
  assumes sh: "shape h hp lv ns" and j: "j < length ns"
  shows "span_sum h hp (ns ! j) 0 = Some (int j + 1)"
proof -
  have "hp # ns = [] @ hp # take (Suc j) ns @ drop (Suc j) ns" by simp
  moreover have "take (Suc j) ns \<noteq> []" using j by auto
  moreover have "last (take (Suc j) ns) = ns ! j" using j by (simp add: take_Suc_conv_app_nth)
  moreover have "length (take (Suc j) ns) = Suc j" using j by simp
  ultimately show ?thesis using span_sum_shape [OF sh, of "[]" hp "take (Suc j) ns" "drop (Suc j) ns" 0]
    by simp
qed

lemma level0_back:
  assumes sh: "shape h hp lv ns" and sp: "ns = A @ a # B"
  shows "bwd h a = (if A = [] then None else Some (last A))"
  using sh unfolding sp shape_def by (simp add: backs_ok_append)

lemma int64_small: "0 \<le> v \<Longrightarrow> v \<le> MAXCAP \<Longrightarrow> int64 v = v"
  unfolding int64_def MAXCAP_def by (simp add: sint_sbintrunc' signed_take_bit_int_eq_self)

lemma make_slice_ok: "0 \<le> v \<Longrightarrow> v \<le> MAXCAP \<Longrightarrow> make_slice (int64 v) = Some []"
  by (simp add: int64_small make_slice_def)

lemma collect_backward_shape:
  assumes sh: "shape h hp lv ns"
  shows "ns = A @ C \<Longrightarrow>
     collect_backward h (if A = [] then None else Some (last A)) n acc =
       Some (acc @ map (\<lambda>a. Obj (h ! a)) (take (nat n) (rev A)))"
proof (induction A arbitrary: n acc C rule: rev_induct)
  case Nil
  then show ?case by (subst collect_backward.simps) simp
next
  case (snoc a A')
  have sp: "ns = A' @ a # C" using snoc.prems by simp
  have ain: "a < length h" using shape_nodes [OF sh, of a] sp by simp
  have b: "bwd h a = (if A' = [] then None else Some (last A'))" using level0_back [OF sh sp] .
  show ?case
  proof (cases "0 < n")
    case True
    then obtain m where m: "nat n = Suc m" "nat (n - 1) = m" by (cases "nat n") auto
    have "collect_backward h (Some a) n acc =
        collect_backward h (if A' = [] then None else Some (last A')) (n - 1) (acc @ [Obj (h ! a)])"
      using True ain b by (subst collect_backward.simps) (simp add: bwd_def)
    also have "\<dots> = Some ((acc @ [Obj (h ! a)]) @ map (\<lambda>a. Obj (h ! a)) (take (nat (n - 1)) (rev A')))"
      using snoc.IH [OF sp] .
    finally show ?thesis by (simp add: m)
  next
    case False
    then show ?thesis by (subst collect_backward.simps) simp
  qed
qed

lemma collect_forward_shape:
  assumes sh: "shape h hp lv ns"
  shows "hp # ns = A @ B \<Longrightarrow> A \<noteq> [] \<Longrightarrow>
     collect_forward h (case B of [] \<Rightarrow> None | b # _ \<Rightarrow> Some b) n acc =
       Some (acc @ map (\<lambda>a. Obj (h ! a)) (take (nat n) B))"
proof (induction B arbitrary: A n acc)
  case Nil
  then show ?case by (subst collect_forward.simps) simp
next
  case (Cons b B')
  have l0: "b < length h" "0 < ht h b" "fwd h b 0 = (case B' of [] \<Rightarrow> None | b # _ \<Rightarrow> Some b)"
    using level0_next [OF sh Cons.prems(1)] by simp_all
  show ?case
  proof (cases "0 < n")
    case True
    then obtain m where m: "nat n = Suc m" "nat (n - 1) = m" by (cases "nat n") auto
    have sp: "hp # ns = (A @ [b]) @ B'" "A @ [b] \<noteq> []" using Cons.prems(1) by simp_all
    have "collect_forward h (Some b) n acc =
        collect_forward h (case B' of [] \<Rightarrow> None | b # _ \<Rightarrow> Some b) (n - 1) (acc @ [Obj (h ! b)])"
      using True l0 by (subst collect_forward.simps) (simp add: fwd_def ht_def)
    also have "\<dots> = Some ((acc @ [Obj (h ! b)]) @ map (\<lambda>a. Obj (h ! a)) (take (nat (n - 1)) B'))"
      using Cons.IH [OF sp] .
    finally show ?thesis by (simp add: m)
  next
    case False
    then show ?thesis by (subst collect_forward.simps) simp
  qed
qed

lemma Obj_entry:
  assumes sh: "shape h hp lv ns" and s: "set A \<subseteq> set ns"
  shows "map (\<lambda>a. Obj (h ! a)) A = map (Some \<circ> snd) (map (entry h) A)"
proof -
  have "Obj (h ! a) = Some (snd (entry h a))" if "a \<in> set A" for a
    using shape_nodes [OF sh, of a] that s by (auto simp: entry_def)
  then show ?thesis by simp
qed

lemma GetNearByRankRange_rep:
  assumes rp: "rep zsl ns" and k: "1 \<le> k" "k \<le> int (length ns)"
    and ud: "0 \<le> up" "0 \<le> down" "up + down + 1 \<le> MAXCAP"
  shows "GetNearByRankRange k up down zsl =
     Some (map (Some \<circ> snd)
       (take (nat up) (rev (take (nat k - 1) (map (entry (store zsl)) ns))) @
        map (entry (store zsl)) ns ! (nat k - 1) #
        take (nat down) (drop (nat k) (map (entry (store zsl)) ns))))"
proof -
  let ?h = "store zsl"
  have sh: "shape ?h (head zsl) (zlevel zsl) ns" using rp by (simp add: rep_def)
  define j where "j = nat k - 1"
  have j: "j < length ns" "nat k = Suc j" using k unfolding j_def by linarith+
  define t where "t = ns ! j"
  define A where "A = take j ns"
  define B where "B = drop (Suc j) ns"
  have ns: "ns = A @ t # B" unfolding A_def B_def t_def using j(1) by (simp add: id_take_nth_drop)
  have tin: "t \<in> set ns" using ns by simp
  have g: "GetElementByRank k zsl = Some (Some t)"
    using GetElementByRank_rep [OF rp, of k] k by (simp add: j(2) t_def)
  have ms: "make_slice (int64 (up + down + 1)) = Some []" using ud by (intro make_slice_ok) simp_all
  have sp: "head zsl # ns = (head zsl # A) @ t # B" using ns by simp
  have l0: "t < length ?h" "0 < ht ?h t" "fwd ?h t 0 = (case B of [] \<Rightarrow> None | b # _ \<Rightarrow> Some b)"
    using level0_next [OF sh sp] by simp_all
  have bw: "bwd ?h t = (if A = [] then None else Some (last A))" using level0_back [OF sh ns] .
  have cb: "collect_backward ?h (backward (?h ! t)) up [] =
      Some ([] @ map (\<lambda>a. Obj (?h ! a)) (take (nat up) (rev A)))"
    using collect_backward_shape [OF sh ns, of up "[]"] bw by (simp add: bwd_def)
  have sp2: "head zsl # ns = (head zsl # A @ [t]) @ B" "head zsl # A @ [t] \<noteq> []" using ns by simp_all
  have cf: "collect_forward ?h (forward (level (?h ! t) ! 0)) down acc =
      Some (acc @ map (\<lambda>a. Obj (?h ! a)) (take (nat down) B))" for acc
    using collect_forward_shape [OF sh sp2, of down acc] l0(3) by (simp add: fwd_def)
  have res: "GetNearByRankRange k up down zsl =
      Some (map (\<lambda>a. Obj (?h ! a)) (take (nat up) (rev A) @ t # take (nat down) B))"
    using l0(1,2) by (simp add: GetNearByRankRange_def g ms cb cf ht_def)
  have sub: "set (take (nat up) (rev A) @ t # take (nat down) B) \<subseteq> set ns"
  proof -
    have "set (take (nat up) (rev A)) \<subseteq> set A" "set (take (nat down) B) \<subseteq> set B"
      using set_take_subset [of "nat up" "rev A"] set_take_subset [of "nat down" B] by simp_all
    then show ?thesis using ns by auto
  qed
  have "map (entry ?h) (take (nat up) (rev A) @ t # take (nat down) B) =
     take (nat up) (rev (take j (map (entry ?h) ns))) @ map (entry ?h) ns ! j #
        take (nat down) (drop (Suc j) (map (entry ?h) ns))"
    using j(1) by (simp add: A_def B_def t_def take_map drop_map rev_map)
  then show ?thesis
    unfolding res Obj_entry [OF sh sub] by (simp add: j_def [symmetric] j(2))
qed

lemma upt_shift: "map f [0..<Suc n] = f 0 # map (\<lambda>i. f (Suc i)) [0..<n]"
  by (simp only: upt_conv_Cons zero_less_Suc list.map map_Suc_upt [symmetric] map_map comp_def)

lemma ranks_up: "map (\<lambda>i. r + int i) [0..<n] = [r..r + int n - 1]"
proof (induction n)
  case 0
  then show ?case by simp
next
  case (Suc n)
  have "[r..r + int (Suc n) - 1] = [r..r + int n - 1] @ [r + int n]"
    using upto_rec2 [of r "r + int n"] by simp
  then show ?case using Suc by simp
qed

lemma ranks_down: "map (\<lambda>i. int n - int i) [0..<n] = rev [1..int n]"
proof (induction n)
  case 0
  then show ?case by simp
next
  case (Suc n)
  have "[1..int (Suc n)] = [1..int n] @ [int n + 1]"
    using upto_rec2 [of 1 "int n + 1"] by (simp add: add.commute)
  then have "rev [1..int (Suc n)] = (int n + 1) # map (\<lambda>i. int n - int i) [0..<n]"
    using Suc by simp
  moreover have "map (\<lambda>i. int (Suc n) - int i) [0..<Suc n] = (int n + 1) # map (\<lambda>i. int n - int i) [0..<n]"
    by (subst upt_shift) simp
  ultimately show ?case by simp
qed

lemma walk_backward_shape:
  assumes sh: "shape h hp lv ns"
  shows "ns = A @ C \<Longrightarrow>
     walk_backward h fn (if A = [] then None else Some (last A)) r st =
       Some (visit fn (zip (map (\<lambda>i. r + int i) [0..<length A]) (map (\<lambda>a. Obj (h ! a)) (rev A))) st)"
proof (induction A arbitrary: r st C rule: rev_induct)
  case Nil
  then show ?case by (subst walk_backward.simps) simp
next
  case (snoc a A')
  have sp: "ns = A' @ a # C" using snoc.prems by simp
  have ain: "a < length h" using shape_nodes [OF sh, of a] sp by simp
  have b: "bwd h a = (if A' = [] then None else Some (last A'))" using level0_back [OF sh sp] .
  obtain go st' where f: "fn r (Obj (h ! a)) st = (go, st')" by (cases "fn r (Obj (h ! a)) st")
  have z: "zip (map (\<lambda>i. r + int i) [0..<length (A' @ [a])]) (map (\<lambda>a. Obj (h ! a)) (rev (A' @ [a]))) =
      (r, Obj (h ! a)) # zip (map (\<lambda>i. (r + 1) + int i) [0..<length A']) (map (\<lambda>a. Obj (h ! a)) (rev A'))"
    by (simp del: upt_Suc add: upt_shift add.assoc)
  show ?case
  proof (cases go)
    case True
    have "walk_backward h fn (Some a) r st =
        walk_backward h fn (if A' = [] then None else Some (last A')) (r + 1) st'"
      using True ain b f by (subst walk_backward.simps) (simp add: bwd_def)
    then show ?thesis unfolding z using snoc.IH [OF sp, of "r + 1" st'] f True by simp
  next
    case False
    have "walk_backward h fn (Some a) r st = Some st'"
      using False ain f by (subst walk_backward.simps) simp
    then show ?thesis unfolding z using f False by simp
  qed
qed

lemma walk_forward_shape:
  assumes sh: "shape h hp lv ns"
  shows "hp # ns = A @ B \<Longrightarrow> A \<noteq> [] \<Longrightarrow>
     walk_forward h fn (case B of [] \<Rightarrow> None | b # _ \<Rightarrow> Some b) r st =
       Some (visit fn (zip (map (\<lambda>i. r - int i) [0..<length B]) (map (\<lambda>a. Obj (h ! a)) B)) st)"
proof (induction B arbitrary: A r st)
  case Nil
  then show ?case by (subst walk_forward.simps) simp
next
  case (Cons b B')
  have l0: "b < length h" "0 < ht h b" "fwd h b 0 = (case B' of [] \<Rightarrow> None | b # _ \<Rightarrow> Some b)"
    using level0_next [OF sh Cons.prems(1)] by simp_all
  have sp: "hp # ns = (A @ [b]) @ B'" "A @ [b] \<noteq> []" using Cons.prems(1) by simp_all
  obtain go st' where f: "fn r (Obj (h ! b)) st = (go, st')" by (cases "fn r (Obj (h ! b)) st")
  have z: "zip (map (\<lambda>i. r - int i) [0..<length (b # B')]) (map (\<lambda>a. Obj (h ! a)) (b # B')) =
      (r, Obj (h ! b)) # zip (map (\<lambda>i. (r - 1) - int i) [0..<length B']) (map (\<lambda>a. Obj (h ! a)) B')"
    by (simp del: upt_Suc add: upt_shift algebra_simps)
  show ?case
  proof (cases go)
    case True
    have "walk_forward h fn (Some b) r st =
        walk_forward h fn (case B' of [] \<Rightarrow> None | b # _ \<Rightarrow> Some b) (r - 1) st'"
      using True l0 f by (subst walk_forward.simps) (simp add: fwd_def ht_def)
    then show ?thesis unfolding z using Cons.IH [OF sp, of "r - 1" st'] f True by simp
  next
    case False
    have "walk_forward h fn (Some b) r st = Some st'"
      using False l0 f by (subst walk_forward.simps) simp
    then show ?thesis unfolding z using f False by simp
  qed
qed

lemma Walk_rep:
  assumes rp: "rep zsl ns"
  shows "Walk True fn st zsl =
       Some (visit fn (zip [1..int (length ns)] (rev (map (Some \<circ> snd) (map (entry (store zsl)) ns)))) st)"
    and "Walk False fn st zsl =
       Some (visit fn (zip (rev [1..int (length ns)]) (map (Some \<circ> snd) (map (entry (store zsl)) ns))) st)"
proof -
  let ?h = "store zsl"
  have sh: "shape ?h (head zsl) (zlevel zsl) ns" using rp by (simp add: rep_def)
  have tl: "tail zsl = (if ns = [] then None else Some (last ns))"
    and len: "zlength zsl = int (length ns)" using rp by (simp_all add: rep_def)
  have ob: "map (\<lambda>a. Obj (?h ! a)) ns = map (Some \<circ> snd) (map (entry ?h) ns)"
    using Obj_entry [OF sh, of ns] by simp
  have "walk_backward ?h fn (tail zsl) 1 st =
      Some (visit fn (zip (map (\<lambda>i. 1 + int i) [0..<length ns]) (map (\<lambda>a. Obj (?h ! a)) (rev ns))) st)"
    using walk_backward_shape [OF sh, of ns "[]" fn 1 st] tl by simp
  then show "Walk True fn st zsl =
       Some (visit fn (zip [1..int (length ns)] (rev (map (Some \<circ> snd) (map (entry ?h) ns)))) st)"
    unfolding Walk_def ranks_up by (simp add: rev_map [symmetric] ob [symmetric] del: map_map)
  have sp: "head zsl # ns = [head zsl] @ ns" "[head zsl] \<noteq> []" by simp_all
  have l0: "head zsl < length ?h" "0 < ht ?h (head zsl)"
    "fwd ?h (head zsl) 0 = (case ns of [] \<Rightarrow> None | b # _ \<Rightarrow> Some b)"
    using level0_next [OF sh, of "[]" "head zsl" ns] by simp_all
  have "walk_forward ?h fn (fwd ?h (head zsl) 0) (zlength zsl) st =
      Some (visit fn (zip (map (\<lambda>i. int (length ns) - int i) [0..<length ns]) (map (\<lambda>a. Obj (?h ! a)) ns)) st)"
    using walk_forward_shape [OF sh sp, of fn "zlength zsl" st] l0(3) len by simp
  then show "Walk False fn st zsl =
       Some (visit fn (zip (rev [1..int (length ns)]) (map (Some \<circ> snd) (map (entry ?h) ns))) st)"
    unfolding Walk_def ranks_down ob by (simp add: slot_at_in l0)
qed

section \<open>Claims settled by running the code\<close>

text \<open>
  C5: for every rank argument below 1 or above the length, \<^verbatim>\<open>GetElementByRank\<close> returns no
  node. At rank 0 the code returns the head sentinel instead: the walk starts with
  \<^verbatim>\<open>tranversed = 0\<close>, advances over nothing, and the test \<^verbatim>\<open>tranversed == rank\<close> succeeds at
  the head. Shown here on the empty list.
\<close>

theorem GetElementByRank_zero_is_head:
  "GetElementByRank 0 NewZSkipList = Some (Some (head NewZSkipList)) \<and>
   zlength NewZSkipList = 0 \<and> Obj (store NewZSkipList ! head NewZSkipList) = None"
  by code_simp

section \<open>Claims about the structure\<close>

text \<open>
  C3: in every list reached from the empty list by valid operations, every pair of adjacent
  nodes on level 0 is in strictly ascending order, score first and identity as tie-break.
\<close>

theorem order_invariant:
  assumes "valid_ops ops"
  shows "\<exists>zsl ns. run ops = Some zsl \<and> nodes_of zsl = Some ns \<and> successively (node_lt (store zsl)) ns"
proof -
  obtain zsl ns where r: "run ops = Some zsl" "rep zsl ns" using run_rep [OF assms] by blast
  have "sorted_wrt (\<lambda>a b. key_of (store zsl) a < key_of (store zsl) b) ns"
    using rep_sorted [OF r(2)] by (simp add: sorted_wrt_map)
  then have "sorted_wrt (node_lt (store zsl)) ns" by (simp add: node_lt_key [abs_def])
  then have "successively (node_lt (store zsl)) ns" by (rule successively_if_sorted_wrt)
  then show ?thesis using r nodes_of_rep by blast
qed

theorem order_invariant_witness:
  "valid_ops [OpInsert 0 20 (Entity 2 0), OpInsert 1 10 (Entity 1 0), OpInsert 0 10 (Entity 3 0),
              OpDelete 20 (Entity 2 0)] \<and>
   (\<exists>zsl ns. run [OpInsert 0 20 (Entity 2 0), OpInsert 1 10 (Entity 1 0), OpInsert 0 10 (Entity 3 0),
                  OpDelete 20 (Entity 2 0)] = Some zsl \<and>
      nodes_of zsl = Some ns \<and> successively (node_lt (store zsl)) ns)"
proof -
  have v: "valid_ops [OpInsert 0 20 (Entity 2 0), OpInsert 1 10 (Entity 1 0), OpInsert 0 10 (Entity 3 0),
              OpDelete 20 (Entity 2 0)]"
    by code_simp
  show ?thesis using v order_invariant [OF v] by simp
qed

text \<open>
  C7: when no node of the list matches both the score and the identity, \<^verbatim>\<open>Delete\<close> returns nil
  and leaves the whole list as it was: store (links and spans), tail, length and level.
\<close>

theorem Delete_absent_unchanged:
  assumes "valid_ops ops" and "(score, Uuid obj) \<notin> set (map ekey (present ops))"
  shows "\<exists>zsl. run ops = Some zsl \<and> Delete score obj zsl = Some (None, zsl)"
proof -
  obtain zsl where r: "run ops = Some zsl" "models zsl (present ops)"
    using run_models [OF assms(1)] by blast
  then show ?thesis using Delete_models [OF r(2), of score obj] assms(2) by auto
qed

theorem Delete_absent_unchanged_witness:
  "valid_ops [OpInsert 0 10 (Entity 1 0), OpInsert 2 20 (Entity 2 0)] \<and>
   (10, Uuid (Entity 2 0)) \<notin> set (map ekey (present [OpInsert 0 10 (Entity 1 0), OpInsert 2 20 (Entity 2 0)])) \<and>
   (\<exists>zsl. run [OpInsert 0 10 (Entity 1 0), OpInsert 2 20 (Entity 2 0)] = Some zsl \<and>
      Delete 10 (Entity 2 0) zsl = Some (None, zsl))"
proof -
  have v: "valid_ops [OpInsert 0 10 (Entity 1 0), OpInsert 2 20 (Entity 2 0)]"
    by code_simp
  have a: "(10, Uuid (Entity 2 0)) \<notin> set (map ekey (present [OpInsert 0 10 (Entity 1 0), OpInsert 2 20 (Entity 2 0)]))"
    by code_simp
  show ?thesis using v a Delete_absent_unchanged [OF v a] by simp
qed

text \<open>
  C10: inserting any number of entities with pairwise distinct (score, identity) pairs into a
  fresh list, at whatever heights, and then deleting all of them with matching arguments in any
  order, gives a list of length 0 and level 1 with no tail.
\<close>

theorem insert_all_delete_all:
  assumes "distinct (map (\<lambda>(flips, se). ekey se) xs)" and "set ds = set (map snd xs)"
  shows "\<exists>zsl. run (map (\<lambda>(flips, score, obj). OpInsert flips score obj) xs @
                    map (\<lambda>(score, obj). OpDelete score obj) ds) = Some zsl \<and>
     zlength zsl = 0 \<and> zlevel zsl = 1 \<and> tail zsl = None"
proof -
  let ?ops = "map (\<lambda>(flips, score, obj). OpInsert flips score obj) xs @
                    map (\<lambda>(score, obj). OpDelete score obj) ds"
  have v: "valid_ops ?ops" using valid_inserts [OF assms(1)] by (simp add: valid_deletes)
  have "present ?ops = filter (\<lambda>se. ekey se \<notin> ekey ` set ds) (rev (map snd xs))"
    by (simp add: present_deletes present_inserts)
  also have "\<dots> = []" using assms(2) by (auto simp: filter_empty_conv)
  finally have p: "present ?ops = []" .
  obtain zsl where "run ?ops = Some zsl" "models zsl (present ?ops)" using run_models [OF v] by blast
  then show ?thesis using models_empty p by auto
qed

theorem insert_all_delete_all_witness:
  "distinct (map (\<lambda>(flips, se). ekey se) [(0, 10, Entity 1 0), (2, 10, Entity 2 0), (1, 5, Entity 3 0)]) \<and>
   set [(10::32 word, Entity 2 0), (5, Entity 3 0), (10, Entity 1 0)] =
     set (map snd [(0::nat, 10, Entity 1 0), (2, 10, Entity 2 0), (1, 5, Entity 3 0)]) \<and>
   (\<exists>zsl. run (map (\<lambda>(flips, score, obj). OpInsert flips score obj)
                  [(0, 10, Entity 1 0), (2, 10, Entity 2 0), (1, 5, Entity 3 0)] @
                map (\<lambda>(score, obj). OpDelete score obj)
                  [(10, Entity 2 0), (5, Entity 3 0), (10, Entity 1 0)]) = Some zsl \<and>
      zlength zsl = 0 \<and> zlevel zsl = 1 \<and> tail zsl = None)"
proof -
  have d: "distinct (map (\<lambda>(flips, se). ekey se) [(0::nat, 10, Entity 1 0), (2, 10, Entity 2 0), (1, 5, Entity 3 0)])"
    by (simp add: ekey_def)
  have s: "set [(10::32 word, Entity 2 0), (5, Entity 3 0), (10, Entity 1 0)] =
     set (map snd [(0::nat, 10::32 word, Entity 1 0), (2, 10, Entity 2 0), (1, 5, Entity 3 0)])"
    by auto
  show ?thesis using d s insert_all_delete_all [OF d s] by simp
qed

text \<open>
  C1: for every list built by inserting entities with pairwise distinct (score, identity)
  pairs, in any order and interleaved with deletes, \<^verbatim>\<open>GetRank\<close> of every entity present returns
  its 1-based position in the ascending (score, identity) order of the present entities. The
  identity of an entity is its \<^verbatim>\<open>Uuid\<close>, which \<^verbatim>\<open>RankInterface\<close> declares the unique id of the
  object: the entities present carry pairwise distinct identities.
\<close>

theorem GetRank_position:
  assumes "valid_ops ops" and "distinct (map (Uuid \<circ> snd) (present ops))"
    and "j < length (present ops)"
  shows "\<exists>zsl. run ops = Some zsl \<and>
     GetRank (fst (sort_key ekey (present ops) ! j)) (snd (sort_key ekey (present ops) ! j)) zsl =
       Some (int j + 1)"
proof -
  obtain zsl ns where r: "run ops = Some zsl" "rep zsl ns"
    and en: "map (entry (store zsl)) ns = sort_key ekey (present ops)"
    and d: "distinct (map (\<lambda>b. Uuid (snd (entry (store zsl) b))) ns)"
    using run_distinct [OF assms(1,2)] by blast
  have "length (map (entry (store zsl)) ns) = length (present ops)" by (simp only: en length_sort)
  then have j: "j < length ns" using assms(3) by simp
  have "sort_key ekey (present ops) ! j = entry (store zsl) (ns ! j)"
    using j by (simp add: en [symmetric])
  then show ?thesis using r(1) GetRank_at [OF r(2) d j] by simp
qed

theorem GetRank_position_witness:
  "valid_ops [OpInsert 0 20 (Entity 2 0), OpInsert 1 10 (Entity 1 0), OpInsert 0 30 (Entity 3 0),
               OpDelete 20 (Entity 2 0), OpInsert 2 5 (Entity 2 0)] \<and>
   distinct (map (Uuid \<circ> snd) (present [OpInsert 0 20 (Entity 2 0), OpInsert 1 10 (Entity 1 0),
       OpInsert 0 30 (Entity 3 0), OpDelete 20 (Entity 2 0), OpInsert 2 5 (Entity 2 0)])) \<and>
   sort_key ekey (present [OpInsert 0 20 (Entity 2 0), OpInsert 1 10 (Entity 1 0),
       OpInsert 0 30 (Entity 3 0), OpDelete 20 (Entity 2 0), OpInsert 2 5 (Entity 2 0)]) ! 1 =
     (10, Entity 1 0) \<and>
   (\<exists>zsl. run [OpInsert 0 20 (Entity 2 0), OpInsert 1 10 (Entity 1 0), OpInsert 0 30 (Entity 3 0),
               OpDelete 20 (Entity 2 0), OpInsert 2 5 (Entity 2 0)] = Some zsl \<and>
      GetRank 10 (Entity 1 0) zsl = Some 2)"
proof -
  let ?ops = "[OpInsert 0 20 (Entity 2 0), OpInsert 1 10 (Entity 1 0), OpInsert 0 30 (Entity 3 0),
               OpDelete 20 (Entity 2 0), OpInsert 2 5 (Entity 2 0)]"
  have v: "valid_ops ?ops" by code_simp
  have d: "distinct (map (Uuid \<circ> snd) (present ?ops))" by code_simp
  have l: "1 < length (present ?ops)" by code_simp
  have e: "sort_key ekey (present ?ops) ! 1 = (10, Entity 1 0)" by code_simp
  show ?thesis using v d e GetRank_position [OF v d l] by (simp add: e)
qed

text \<open>
  C6: for every list and every queried (score, identity) pair that no node of the list has,
  \<^verbatim>\<open>GetRank\<close> returns 0. The code compares only the identity of the node the walk lands on: on
  the list of the entities of scores 10, 20, 30 with identities 1, 2, 3, no node has score 25
  and identity 2, yet \<^verbatim>\<open>GetRank\<close> of that pair returns 2, the rank of the node of score 20. On
  the same input \<^verbatim>\<open>Delete\<close> compares score and identity and returns nil.
\<close>

theorem GetRank_other_score:
  "valid_ops [OpInsert 0 10 (Entity 1 0), OpInsert 0 20 (Entity 2 0), OpInsert 0 30 (Entity 3 0)] \<and>
   (25, 2) \<notin> set (map ekey (present
      [OpInsert 0 10 (Entity 1 0), OpInsert 0 20 (Entity 2 0), OpInsert 0 30 (Entity 3 0)])) \<and>
   run [OpInsert 0 10 (Entity 1 0), OpInsert 0 20 (Entity 2 0), OpInsert 0 30 (Entity 3 0)]
     \<bind> GetRank 25 (Entity 2 0) = Some 2 \<and>
   map_option fst
     (run [OpInsert 0 10 (Entity 1 0), OpInsert 0 20 (Entity 2 0), OpInsert 0 30 (Entity 3 0)]
        \<bind> Delete 25 (Entity 2 0)) = Some None"
  by code_simp

text \<open>
  C2: in every list reached from the empty list by valid operations, for every node of the
  list, the sum of the level-0 spans on the way from the head to that node is the value that
  \<^verbatim>\<open>GetRank\<close> returns for the score and the identity of that node. The entities present carry
  pairwise distinct identities, as \<^verbatim>\<open>RankInterface\<close> asks.
\<close>

theorem span_sum_is_rank:
  assumes "valid_ops ops" and "distinct (map (Uuid \<circ> snd) (present ops))"
  shows "\<exists>zsl ns. run ops = Some zsl \<and> nodes_of zsl = Some ns \<and>
     (\<forall>a\<in>set ns. \<exists>r. span_sum (store zsl) (head zsl) a 0 = Some r \<and>
        GetRank (Score (store zsl ! a)) (the (Obj (store zsl ! a))) zsl = Some r)"
proof -
  obtain zsl ns where r: "run ops = Some zsl" "rep zsl ns"
    and d: "distinct (map (\<lambda>b. Uuid (snd (entry (store zsl) b))) ns)"
    using run_distinct [OF assms] by blast
  have sh: "shape (store zsl) (head zsl) (zlevel zsl) ns" using r(2) by (simp add: rep_def)
  have "\<exists>r. span_sum (store zsl) (head zsl) a 0 = Some r \<and>
        GetRank (Score (store zsl ! a)) (the (Obj (store zsl ! a))) zsl = Some r"
    if a: "a \<in> set ns" for a
  proof -
    obtain j where j: "j < length ns" "a = ns ! j" using a by (auto simp: in_set_conv_nth)
    have "span_sum (store zsl) (head zsl) a 0 = Some (int j + 1)"
      using span_sum_at [OF sh j(1)] j(2) by simp
    moreover have "GetRank (Score (store zsl ! a)) (the (Obj (store zsl ! a))) zsl = Some (int j + 1)"
      using GetRank_at [OF r(2) d j(1)] j(2) by (simp add: entry_def)
    ultimately show ?thesis by simp
  qed
  then show ?thesis using r(1) nodes_of_rep [OF r(2)] by blast
qed

theorem span_sum_is_rank_witness:
  "valid_ops [OpInsert 0 20 (Entity 2 0), OpInsert 1 10 (Entity 1 0), OpInsert 3 10 (Entity 3 0),
              OpDelete 20 (Entity 2 0), OpInsert 0 5 (Entity 2 0)] \<and>
   distinct (map (Uuid \<circ> snd) (present [OpInsert 0 20 (Entity 2 0), OpInsert 1 10 (Entity 1 0),
      OpInsert 3 10 (Entity 3 0), OpDelete 20 (Entity 2 0), OpInsert 0 5 (Entity 2 0)])) \<and>
   (\<exists>zsl ns. run [OpInsert 0 20 (Entity 2 0), OpInsert 1 10 (Entity 1 0), OpInsert 3 10 (Entity 3 0),
                  OpDelete 20 (Entity 2 0), OpInsert 0 5 (Entity 2 0)] = Some zsl \<and>
      nodes_of zsl = Some ns \<and> length ns = 3 \<and>
      (\<forall>a\<in>set ns. \<exists>r. span_sum (store zsl) (head zsl) a 0 = Some r \<and>
         GetRank (Score (store zsl ! a)) (the (Obj (store zsl ! a))) zsl = Some r))"
proof -
  let ?ops = "[OpInsert 0 20 (Entity 2 0), OpInsert 1 10 (Entity 1 0), OpInsert 3 10 (Entity 3 0),
              OpDelete 20 (Entity 2 0), OpInsert 0 5 (Entity 2 0)]"
  have v: "valid_ops ?ops" by code_simp
  have d: "distinct (map (Uuid \<circ> snd) (present ?ops))" by code_simp
  have n: "map_option length (run ?ops \<bind> nodes_of) = Some 3" by code_simp
  obtain zsl ns where z: "run ?ops = Some zsl" "nodes_of zsl = Some ns"
    "\<forall>a\<in>set ns. \<exists>r. span_sum (store zsl) (head zsl) a 0 = Some r \<and>
         GetRank (Score (store zsl ! a)) (the (Obj (store zsl ! a))) zsl = Some r"
    using span_sum_is_rank [OF v d] by blast
  have "length ns = 3" using n z(1,2) by simp
  then show ?thesis using v d z by blast
qed

text \<open>
  C4: in every list reached by valid operations, for every rank \<open>k\<close> from 1 to the length,
  \<^verbatim>\<open>GetElementByRank\<close> returns a node, and \<^verbatim>\<open>GetRank\<close> of the score and the identity of that node
  returns \<open>k\<close>. The entities present carry pairwise distinct identities, as \<^verbatim>\<open>RankInterface\<close>
  asks.
\<close>

theorem GetElementByRank_inverse:
  assumes "valid_ops ops" and "distinct (map (Uuid \<circ> snd) (present ops))"
  shows "\<exists>zsl. run ops = Some zsl \<and>
     (\<forall>k. 1 \<le> k \<and> k \<le> zlength zsl \<longrightarrow>
        (\<exists>a. GetElementByRank k zsl = Some (Some a) \<and> Obj (store zsl ! a) \<noteq> None \<and>
           GetRank (Score (store zsl ! a)) (the (Obj (store zsl ! a))) zsl = Some k))"
proof -
  obtain zsl ns where r: "run ops = Some zsl" "rep zsl ns"
    and d: "distinct (map (\<lambda>b. Uuid (snd (entry (store zsl) b))) ns)"
    using run_distinct [OF assms] by blast
  have sh: "shape (store zsl) (head zsl) (zlevel zsl) ns" using r(2) by (simp add: rep_def)
  have len: "zlength zsl = int (length ns)" using r(2) by (simp add: rep_def)
  have "\<exists>a. GetElementByRank k zsl = Some (Some a) \<and> Obj (store zsl ! a) \<noteq> None \<and>
           GetRank (Score (store zsl ! a)) (the (Obj (store zsl ! a))) zsl = Some k"
    if k: "1 \<le> k \<and> k \<le> zlength zsl" for k
  proof -
    define j where "j = nat k - 1"
    have j: "j < length ns" "nat k = Suc j" "int j + 1 = k" using k len unfolding j_def by linarith+
    have "GetElementByRank k zsl = Some (Some ((head zsl # ns) ! nat k))"
      using GetElementByRank_rep [OF r(2), of k] k len by simp
    then have g: "GetElementByRank k zsl = Some (Some (ns ! j))" by (simp add: j(2))
    have "ns ! j \<in> set ns" using j(1) by simp
    then have o: "Obj (store zsl ! (ns ! j)) \<noteq> None" using shape_nodes [OF sh] by blast
    have "GetRank (Score (store zsl ! (ns ! j))) (the (Obj (store zsl ! (ns ! j)))) zsl = Some k"
      using GetRank_at [OF r(2) d j(1)] j(3) by (simp add: entry_def)
    then show ?thesis using g o by blast
  qed
  then show ?thesis using r(1) by blast
qed

theorem GetElementByRank_inverse_witness:
  "valid_ops [OpInsert 0 20 (Entity 2 0), OpInsert 2 10 (Entity 1 0), OpInsert 1 10 (Entity 3 0),
              OpInsert 0 7 (Entity 4 0), OpDelete 10 (Entity 1 0)] \<and>
   distinct (map (Uuid \<circ> snd) (present [OpInsert 0 20 (Entity 2 0), OpInsert 2 10 (Entity 1 0),
      OpInsert 1 10 (Entity 3 0), OpInsert 0 7 (Entity 4 0), OpDelete 10 (Entity 1 0)])) \<and>
   (\<exists>zsl a. run [OpInsert 0 20 (Entity 2 0), OpInsert 2 10 (Entity 1 0), OpInsert 1 10 (Entity 3 0),
                 OpInsert 0 7 (Entity 4 0), OpDelete 10 (Entity 1 0)] = Some zsl \<and>
      (1::int) \<le> 2 \<and> 2 \<le> zlength zsl \<and>
      GetElementByRank 2 zsl = Some (Some a) \<and> Obj (store zsl ! a) \<noteq> None \<and>
      GetRank (Score (store zsl ! a)) (the (Obj (store zsl ! a))) zsl = Some 2)"
proof -
  let ?ops = "[OpInsert 0 20 (Entity 2 0), OpInsert 2 10 (Entity 1 0), OpInsert 1 10 (Entity 3 0),
              OpInsert 0 7 (Entity 4 0), OpDelete 10 (Entity 1 0)]"
  have v: "valid_ops ?ops" by code_simp
  have d: "distinct (map (Uuid \<circ> snd) (present ?ops))" by code_simp
  have n: "map_option zlength (run ?ops) = Some 3" by code_simp
  obtain zsl where z: "run ?ops = Some zsl"
    "\<forall>k. 1 \<le> k \<and> k \<le> zlength zsl \<longrightarrow>
        (\<exists>a. GetElementByRank k zsl = Some (Some a) \<and> Obj (store zsl ! a) \<noteq> None \<and>
           GetRank (Score (store zsl ! a)) (the (Obj (store zsl ! a))) zsl = Some k)"
    using GetElementByRank_inverse [OF v d] by blast
  have l: "zlength zsl = 3" using n z(1) by simp
  then have "1 \<le> (2::int) \<and> 2 \<le> zlength zsl" by simp
  then obtain a where "GetElementByRank 2 zsl = Some (Some a) \<and> Obj (store zsl ! a) \<noteq> None \<and>
           GetRank (Score (store zsl ! a)) (the (Obj (store zsl ! a))) zsl = Some 2"
    using z(2) by blast
  then show ?thesis using v d z(1) l by auto
qed

text \<open>
  C8: for every rank \<open>k\<close> from 1 to the length and all \<open>up\<close>, \<open>down\<close> that are not negative,
  \<^verbatim>\<open>GetNearByRankRange\<close> returns up to \<open>up\<close> entities before the node of rank \<open>k\<close>, then the
  entity of that node, then up to \<open>down\<close> entities after it, all neighbours on level 0. The
  entities before the target are appended while the code walks backward, so they come nearest
  first, in descending order, and the sequence as a whole is not ascending; the entities after
  the target are in ascending order. The slice is allocated with capacity \<open>up + down + 1\<close>,
  which the allocator has to accept. With \<open>es\<close> the present entries in ascending order:
\<close>

theorem GetNearByRankRange_nearest_first:
  assumes "valid_ops ops" and "1 \<le> k" and "k \<le> int (length (present ops))"
    and "0 \<le> up" and "0 \<le> down" and "up + down + 1 \<le> MAXCAP"
  shows "\<exists>zsl. run ops = Some zsl \<and> zlength zsl = int (length (present ops)) \<and>
     GetNearByRankRange k up down zsl =
       Some (let es = sort_key ekey (present ops) in
             map (Some \<circ> snd)
               (take (nat up) (rev (take (nat k - 1) es)) @ es ! (nat k - 1) #
                take (nat down) (drop (nat k) es)))"
proof -
  obtain zsl ns where r: "run ops = Some zsl" "rep zsl ns"
    and en: "map (entry (store zsl)) ns = sort_key ekey (present ops)"
    using run_rep [OF assms(1)] by blast
  have "length (map (entry (store zsl)) ns) = length (present ops)" by (simp only: en length_sort)
  then have len: "length ns = length (present ops)" by simp
  then have k: "k \<le> int (length ns)" using assms(3) by simp
  have "zlength zsl = int (length (present ops))" using r(2) len by (simp add: rep_def)
  then show ?thesis
    using r(1) GetNearByRankRange_rep [OF r(2) assms(2) k assms(4-6)] by (simp add: en Let_def)
qed

theorem GetNearByRankRange_nearest_first_witness:
  "valid_ops [OpInsert 0 30 (Entity 3 0), OpInsert 1 10 (Entity 1 0), OpInsert 0 20 (Entity 2 0),
              OpInsert 2 40 (Entity 4 0), OpInsert 0 50 (Entity 5 0)] \<and>
   (1::int) \<le> 3 \<and>
   3 \<le> int (length (present [OpInsert 0 30 (Entity 3 0), OpInsert 1 10 (Entity 1 0),
      OpInsert 0 20 (Entity 2 0), OpInsert 2 40 (Entity 4 0), OpInsert 0 50 (Entity 5 0)])) \<and>
   (0::int) \<le> 2 \<and> (0::int) \<le> 1 \<and> 2 + 1 + 1 \<le> MAXCAP \<and>
   (\<exists>zsl. run [OpInsert 0 30 (Entity 3 0), OpInsert 1 10 (Entity 1 0), OpInsert 0 20 (Entity 2 0),
               OpInsert 2 40 (Entity 4 0), OpInsert 0 50 (Entity 5 0)] = Some zsl \<and>
      zlength zsl = 5 \<and>
      GetNearByRankRange 3 2 1 zsl =
        Some [Some (Entity 2 0), Some (Entity 1 0), Some (Entity 3 0), Some (Entity 4 0)])"
proof -
  let ?ops = "[OpInsert 0 30 (Entity 3 0), OpInsert 1 10 (Entity 1 0), OpInsert 0 20 (Entity 2 0),
              OpInsert 2 40 (Entity 4 0), OpInsert 0 50 (Entity 5 0)]"
  have v: "valid_ops ?ops" by code_simp
  have k: "(1::int) \<le> 3" "3 \<le> int (length (present ?ops))" by code_simp+
  have u: "(0::int) \<le> 2" "(0::int) \<le> 1" "2 + 1 + 1 \<le> MAXCAP" by (simp_all add: MAXCAP_def)
  have e: "(let es = sort_key ekey (present ?ops) in
             map (Some \<circ> snd)
               (take (nat 2) (rev (take (nat 3 - 1) es)) @ es ! (nat 3 - 1) #
                take (nat 1) (drop (nat 3) es))) =
        [Some (Entity 2 0), Some (Entity 1 0), Some (Entity 3 0), Some (Entity 4 0)]"
    by code_simp
  have l: "int (length (present ?ops)) = 5" by code_simp
  show ?thesis
    using v k u GetNearByRankRange_nearest_first [OF v k u] unfolding e l by simp
qed

text \<open>
  Counterexample to the claim as stated: on the list of the entities of scores 10, 20, 30 with
  identities 1, 2, 3, the range around rank 3 with \<open>up = 2\<close> and \<open>down = 0\<close> is the entities
  2, 1, 3 in this order, which is not ascending. With \<open>up = down = 2 ^ 62\<close> the capacity
  \<open>up + down + 1\<close> wraps to a negative number and the allocation panics.
\<close>

theorem GetNearByRankRange_not_ascending:
  "valid_ops [OpInsert 0 10 (Entity 1 0), OpInsert 1 20 (Entity 2 0), OpInsert 0 30 (Entity 3 0)] \<and>
   sort_key ekey (present
      [OpInsert 0 10 (Entity 1 0), OpInsert 1 20 (Entity 2 0), OpInsert 0 30 (Entity 3 0)]) =
     [(10, Entity 1 0), (20, Entity 2 0), (30, Entity 3 0)] \<and>
   run [OpInsert 0 10 (Entity 1 0), OpInsert 1 20 (Entity 2 0), OpInsert 0 30 (Entity 3 0)]
     \<bind> GetNearByRankRange 3 2 0 = Some [Some (Entity 2 0), Some (Entity 1 0), Some (Entity 3 0)] \<and>
   run [OpInsert 0 10 (Entity 1 0), OpInsert 1 20 (Entity 2 0), OpInsert 0 30 (Entity 3 0)]
     \<bind> GetNearByRankRange 1 (2 ^ 62) (2 ^ 62) = None"
  by code_simp

text \<open>
  C9: \<^verbatim>\<open>Walk\<close> goes along level 0 in the direction of its flag, calls the inspector once for
  every node it visits, with a rank and the entity of the node, and stops as soon as the
  inspector returns false; the list is only read. The rank handed to the inspector counts from
  the tail: from tail to head it runs 1, 2, 3, ... and from head to tail it starts at the
  length and runs down to 1, so it is the length minus the position in ascending order plus 1.
  With \<open>objs\<close> the present entities in ascending order:
\<close>

theorem Walk_ranks_from_tail:
  assumes "valid_ops ops"
  shows "\<exists>zsl. run ops = Some zsl \<and>
     (let objs = map (Some \<circ> snd) (sort_key ekey (present ops)); n = int (length (present ops)) in
      Walk True fn st zsl = Some (visit fn (zip [1..n] (rev objs)) st) \<and>
      Walk False fn st zsl = Some (visit fn (zip (rev [1..n]) objs) st))"
proof -
  obtain zsl ns where r: "run ops = Some zsl" "rep zsl ns"
    and en: "map (entry (store zsl)) ns = sort_key ekey (present ops)"
    using run_rep [OF assms(1)] by blast
  have "length (map (entry (store zsl)) ns) = length (present ops)" by (simp only: en length_sort)
  then have len: "length ns = length (present ops)" by simp
  show ?thesis
    using r(1) Walk_rep [OF r(2), of fn st] by (simp only: en len Let_def) simp
qed

theorem Walk_ranks_from_tail_witness:
  "valid_ops [OpInsert 0 30 (Entity 3 0), OpInsert 1 10 (Entity 1 0), OpInsert 0 20 (Entity 2 0),
              OpDelete 10 (Entity 1 0), OpInsert 2 40 (Entity 4 0)] \<and>
   (\<exists>zsl. run [OpInsert 0 30 (Entity 3 0), OpInsert 1 10 (Entity 1 0), OpInsert 0 20 (Entity 2 0),
               OpDelete 10 (Entity 1 0), OpInsert 2 40 (Entity 4 0)] = Some zsl \<and>
      Walk True (\<lambda>r e seen. (r < 2, seen @ [(r, e)])) [] zsl =
        Some [(1, Some (Entity 4 0)), (2, Some (Entity 3 0))] \<and>
      Walk False (\<lambda>r e seen. (True, seen @ [(r, e)])) [] zsl =
        Some [(3, Some (Entity 2 0)), (2, Some (Entity 3 0)), (1, Some (Entity 4 0))])"
proof -
  let ?ops = "[OpInsert 0 30 (Entity 3 0), OpInsert 1 10 (Entity 1 0), OpInsert 0 20 (Entity 2 0),
              OpDelete 10 (Entity 1 0), OpInsert 2 40 (Entity 4 0)]"
  let ?stop = "\<lambda>(r::int) (e::entity option) seen. (r < 2, seen @ [(r, e)])"
  let ?all = "\<lambda>(r::int) (e::entity option) seen. (True, seen @ [(r, e)])"
  have v: "valid_ops ?ops" by code_simp
  have e: "map (Some \<circ> snd) (sort_key ekey (present ?ops)) =
      [Some (Entity 2 0), Some (Entity 3 0), Some (Entity 4 0)]" by code_simp
  have l: "int (length (present ?ops)) = 3" by code_simp
  have u: "[1..3::int] = [1, 2, 3]" by code_simp
  obtain z1 where z1: "run ?ops = Some z1"
    "Walk True ?stop [] z1 = Some (visit ?stop (zip [1..3] (rev [Some (Entity 2 0), Some (Entity 3 0), Some (Entity 4 0)])) [])"
    using Walk_ranks_from_tail [OF v, of ?stop "[]"] unfolding Let_def e l by blast
  obtain z2 where z2: "run ?ops = Some z2"
    "Walk False ?all [] z2 = Some (visit ?all (zip (rev [1..3]) [Some (Entity 2 0), Some (Entity 3 0), Some (Entity 4 0)]) [])"
    using Walk_ranks_from_tail [OF v, of ?all "[]"] unfolding Let_def e l by blast
  have "z2 = z1" using z1(1) z2(1) by simp
  then show ?thesis using v z1 z2 by (simp add: u)
qed

text \<open>
  Counterexample to the claim as stated: on the list of the entities of scores 10, 20, 30 with
  identities 1, 2, 3, the walk from head to tail hands the inspector rank 3 with the first
  entity, whose position in ascending order is 1.
\<close>

theorem Walk_head_to_tail_ranks:
  "valid_ops [OpInsert 0 10 (Entity 1 0), OpInsert 1 20 (Entity 2 0), OpInsert 0 30 (Entity 3 0)] \<and>
   sort_key ekey (present
      [OpInsert 0 10 (Entity 1 0), OpInsert 1 20 (Entity 2 0), OpInsert 0 30 (Entity 3 0)]) =
     [(10, Entity 1 0), (20, Entity 2 0), (30, Entity 3 0)] \<and>
   run [OpInsert 0 10 (Entity 1 0), OpInsert 1 20 (Entity 2 0), OpInsert 0 30 (Entity 3 0)]
     \<bind> Walk False (\<lambda>r e seen. (True, seen @ [(r, e)])) [] =
     Some [(3, Some (Entity 1 0)), (2, Some (Entity 2 0)), (1, Some (Entity 3 0))]"
  by code_simp

end
